theory Spec2Isabelle
  imports Main "HOL-Library.Char_ord" "HOL-Library.List_Lexorder"
begin

section \<open>Logical tree (logical_tree.py)\<close>

text \<open>
  The exceptions the rewrite passes can raise: \<^verbatim>\<open>children[0]\<close> on a node without
  children (IndexError), \<^verbatim>\<open>props["alias"]\<close> on a Scan without alias (KeyError),
  \<^verbatim>\<open>left, right = node.children\<close> on a node that does not have exactly two children
  (ValueError), and a call nested deeper than the interpreter's recursion limit
  (RecursionError).
\<close>

datatype error = IndexError | KeyError | ValueError | RecursionError

text \<open>
  The property dictionary of a node. Every key the passes read is a field; \<open>None\<close> is an
  absent key, so that \<^verbatim>\<open>props.get(k, default)\<close> and \<^verbatim>\<open>props[k]\<close> are both expressible.
  The value types are those of the constructors of logical_tree.py (\<^verbatim>\<open>on\<close> may hold
  Python's None, hence the nested option). The field for the key \<^verbatim>\<open>alias\<close> is named
  \<open>alias_p\<close>, since \<open>alias\<close> is a command of Isabelle.
\<close>

record props =
  relation :: "string option"
  alias_p :: "string option"
  pred :: "string option"
  pred_attrs :: "string list option"
  attrs :: "string list option"
  on :: "string option option"
  join_keys_left :: "string list option"
  join_keys_right :: "string list option"
  group_by :: "string list option"
  aggs :: "(string \<times> string) list option"
  order_by :: "string list option"

datatype node = Node (op: string) (children: "node list") (props: props)

definition no_props :: props where
  "no_props = \<lparr>relation = None, alias_p = None, pred = None, pred_attrs = None, attrs = None,
     on = None, join_keys_left = None, join_keys_right = None, group_by = None, aggs = None,
     order_by = None\<rparr>"

text \<open>\<^verbatim>\<open>props.get("pred", "")\<close> and \<^verbatim>\<open>props.get(k, [])\<close> for a list-valued key.\<close>

definition get_pred :: "props \<Rightarrow> string" where
  "get_pred p = (case pred p of None \<Rightarrow> [] | Some s \<Rightarrow> s)"

definition get_list :: "'a list option \<Rightarrow> 'a list" where
  "get_list v = (case v of None \<Rightarrow> [] | Some xs \<Rightarrow> xs)"

text \<open>The constructors of logical_tree.py.\<close>

text \<open>
  \<^verbatim>\<open>leaf_scan(relation, alias=None)\<close> stores \<^verbatim>\<open>alias or relation\<close>: a missing alias and
  an empty one both fall back to the relation name.
\<close>

definition leaf_scan :: "string \<Rightarrow> string option \<Rightarrow> node" where
  "leaf_scan rel al =
     Node ''Scan'' []
       (no_props\<lparr>relation := Some rel,
          alias_p := Some (case al of None \<Rightarrow> rel | Some a \<Rightarrow> if a = [] then rel else a)\<rparr>)"

definition sel_props :: "string \<Rightarrow> string list \<Rightarrow> props" where
  "sel_props q as = no_props\<lparr>pred := Some q, pred_attrs := Some as\<rparr>"

definition join_props :: "string option \<Rightarrow> string list \<Rightarrow> string list \<Rightarrow> props" where
  "join_props c kl kr =
     no_props\<lparr>on := Some c, join_keys_left := Some kl, join_keys_right := Some kr\<rparr>"

definition join :: "string \<Rightarrow> string option \<Rightarrow> node \<Rightarrow> node \<Rightarrow> node" where
  "join kind c l r = Node kind [l, r] (join_props c [] [])"

text \<open>
  A list comprehension over calls that may raise: the first exception, from left to
  right, ends the evaluation.
\<close>

fun collect :: "(error + 'a) list \<Rightarrow> error + 'a list" where
  "collect [] = Inr []"
| "collect (Inl e # rs) = Inl e"
| "collect (Inr x # rs) = (case collect rs of Inl e \<Rightarrow> Inl e | Inr xs \<Rightarrow> Inr (x # xs))"

section \<open>Text matching\<close>

text \<open>
  Strings are lists of characters with code points below 256. \<open>is_space\<close> is the class
  \<^verbatim>\<open>\s\<close> of Python's re on str (and the separators of \<^verbatim>\<open>str.split()\<close>), \<open>is_word\<close> the
  class \<^verbatim>\<open>\w\<close>: alphanumeric characters and the underscore.
\<close>

definition is_space :: "char \<Rightarrow> bool" where
  "is_space c = (let n = (of_char c :: nat) in
     (9 \<le> n \<and> n \<le> 13) \<or> (28 \<le> n \<and> n \<le> 32) \<or> n = 133 \<or> n = 160)"

definition is_word :: "char \<Rightarrow> bool" where
  "is_word c = (let n = (of_char c :: nat) in
     (48 \<le> n \<and> n \<le> 57) \<or> (65 \<le> n \<and> n \<le> 90) \<or> n = 95 \<or> (97 \<le> n \<and> n \<le> 122) \<or>
     n = 170 \<or> n = 178 \<or> n = 179 \<or> n = 181 \<or> n = 185 \<or> n = 186 \<or> (188 \<le> n \<and> n \<le> 190) \<or>
     (192 \<le> n \<and> n \<le> 214) \<or> (216 \<le> n \<and> n \<le> 246) \<or> 248 \<le> n)"

text \<open>\<^verbatim>\<open>p in s\<close> on strings: \<open>p\<close> occurs in \<open>s\<close> as a contiguous piece.\<close>

fun py_in :: "string \<Rightarrow> string \<Rightarrow> bool" where
  "py_in p [] = (p = [])"
| "py_in p (c # cs) = (take (length p) (c # cs) = p \<or> py_in p cs)"

text \<open>
  One match of \<^verbatim>\<open>\s+AND\s+\<close> at the head of \<open>s\<close>; the result is the text after the match.
  Both \<^verbatim>\<open>\s+\<close> are greedy, and giving back a space never helps, since the character
  that must follow a run of spaces is not a space.
\<close>

definition match_and :: "string \<Rightarrow> string option" where
  "match_and s =
     (let r1 = dropWhile is_space s in
      if length r1 = length s then None
      else if take 3 r1 = ''AND'' then
        (let r2 = drop 3 r1; r3 = dropWhile is_space r2 in
         if length r3 = length r2 then None else Some r3)
      else None)"

lemma match_and_shorter: "match_and s = Some r \<Longrightarrow> length r < length s"
proof -
  assume m: "match_and s = Some r"
  let ?r1 = "dropWhile is_space s"
  from m have t: "take 3 ?r1 = ''AND''" and r: "r = dropWhile is_space (drop 3 ?r1)"
    by (auto simp: match_and_def Let_def split: if_splits)
  from t have "3 \<le> length ?r1"
    by (metis length_take min.cobounded1 length_Cons list.size(3) numeral_3_eq_3 min.commute)
  moreover have "length r \<le> length (drop 3 ?r1)"
    unfolding r by (rule length_dropWhile_le)
  moreover have "length ?r1 \<le> length s"
    by (rule length_dropWhile_le)
  ultimately show ?thesis by simp
qed

text \<open>
  \<^verbatim>\<open>re.split(r"\s+AND\s+", s)\<close>: the pieces of \<open>s\<close> between the matches, found from left
  to right. \<open>acc\<close> holds the current piece, reversed.
\<close>

function re_split_and :: "string \<Rightarrow> string \<Rightarrow> string list" where
  "re_split_and acc [] = [rev acc]"
| "re_split_and acc (c # cs) =
     (case match_and (c # cs) of
        Some r \<Rightarrow> rev acc # re_split_and [] r
      | None \<Rightarrow> re_split_and (c # acc) cs)"
  by pat_completeness auto
termination
  by (relation "measure (\<lambda>(acc, s). length s)") (auto dest: match_and_shorter)

section \<open>Pass 1: breakup_conjuncts\<close>

text \<open>
  The chain built by the loop over \<^verbatim>\<open>parts[::-1]\<close>: the last piece wraps the child first,
  the first piece ends up outermost. Every new Select gets the piece as its predicate
  and the \<^verbatim>\<open>pred_attrs\<close> of the node being split.
\<close>

definition select_chain :: "string list \<Rightarrow> string list \<Rightarrow> node \<Rightarrow> node" where
  "select_chain parts as c =
     foldl (\<lambda>cur q. Node ''Select'' [cur] (sel_props q as)) c (rev parts)"

fun breakup_conjuncts_helper :: "node \<Rightarrow> error + node" where
  "breakup_conjuncts_helper (Node opn cs p) =
     (if opn = ''Select'' \<and> py_in '' AND '' (get_pred p) then
        (case cs of
           [] \<Rightarrow> Inl IndexError
         | c # _ \<Rightarrow> Inr (select_chain (re_split_and [] (get_pred p)) (get_list (pred_attrs p)) c))
      else
        (case collect (map breakup_conjuncts_helper cs) of
           Inl e \<Rightarrow> Inl e
         | Inr cs' \<Rightarrow> Inr (Node opn cs' p)))"

definition breakup_conjuncts :: "node \<Rightarrow> error + node" where
  "breakup_conjuncts n = breakup_conjuncts_helper n"

section \<open>Pass 2: selection_pushdown\<close>

text \<open>
  The aliases of the Scan leaves under a node. selection_pushdown and projection_pushdown
  each define this function locally (as \<^verbatim>\<open>aliases\<close> and \<^verbatim>\<open>_aliases\<close>), with the same body.
\<close>

fun aliases :: "node \<Rightarrow> error + string set" where
  "aliases (Node opn cs p) =
     (if opn = ''Scan'' then
        (case alias_p p of None \<Rightarrow> Inl KeyError | Some a \<Rightarrow> Inr {a})
      else
        (case collect (map aliases cs) of
           Inl e \<Rightarrow> Inl e
         | Inr ss \<Rightarrow> Inr (\<Union> (set ss))))"

text \<open>\<^verbatim>\<open>a.split(".")[0]\<close> and \<^verbatim>\<open>"." in a\<close>.\<close>

definition before_dot :: "string \<Rightarrow> string" where
  "before_dot a = takeWhile (\<lambda>c. c \<noteq> CHR ''.'') a"

definition has_dot :: "string \<Rightarrow> bool" where
  "has_dot a = (CHR ''.'' \<in> set a)"

text \<open>
  The set \<^verbatim>\<open>involved\<close> of a Select: the aliases of the entries of \<^verbatim>\<open>pred_attrs\<close> that
  contain a dot. Entries without a dot are filtered out.
\<close>

definition involved :: "props \<Rightarrow> string set" where
  "involved p = set (map before_dot (filter has_dot (get_list (pred_attrs p))))"

function selection_pushdown_helper :: "node \<Rightarrow> error + node" where
  "selection_pushdown_helper (Node opn cs p) =
     (if opn = ''Select'' then
        (case cs of
           [] \<Rightarrow> Inl IndexError
         | c # rest \<Rightarrow>
             (case selection_pushdown_helper c of
                Inl e \<Rightarrow> Inl e
              | Inr child \<Rightarrow>
                  if involved p = {} then Inr (Node opn (child # rest) p)
                  else if op child = ''Cross'' \<or> op child = ''Join'' then
                    (case children child of
                       [left, right] \<Rightarrow>
                         (case aliases left of
                            Inl e \<Rightarrow> Inl e
                          | Inr la \<Rightarrow>
                              (case aliases right of
                                 Inl e \<Rightarrow> Inl e
                               | Inr ra \<Rightarrow>
                                   if involved p \<subseteq> la then
                                     (case selection_pushdown_helper (Node opn (left # rest) p) of
                                        Inl e \<Rightarrow> Inl e
                                      | Inr n' \<Rightarrow> Inr (Node (op child) [n', right] (props child)))
                                   else if involved p \<subseteq> ra then
                                     (case selection_pushdown_helper (Node opn (right # rest) p) of
                                        Inl e \<Rightarrow> Inl e
                                      | Inr n' \<Rightarrow> Inr (Node (op child) [left, n'] (props child)))
                                   else Inr (Node opn (child # rest) p)))
                     | _ \<Rightarrow> Inl ValueError)
                  else Inr (Node opn (child # rest) p)))
      else
        (case collect (map selection_pushdown_helper cs) of
           Inl e \<Rightarrow> Inl e
         | Inr cs' \<Rightarrow> Inr (Node opn cs' p)))"
  by pat_completeness auto

text \<open>
  The recursive call on the re-attached Select takes a child of the result of an earlier
  call, so termination rests on the pass keeping the number of nodes.
\<close>

lemma collect_map_size:
  assumes "collect (map f cs) = Inr cs'"
    and "\<And>c c'. c \<in> set cs \<Longrightarrow> f c = Inr c' \<Longrightarrow> size c' = size c"
  shows "size_list size cs' = size_list size cs"
  using assms
proof (induction cs arbitrary: cs')
  case Nil
  then show ?case by simp
next
  case (Cons c cs)
  then show ?case
    by (cases "f c"; cases "collect (map f cs)") auto
qed

lemma selection_pushdown_helper_size:
  "selection_pushdown_helper_dom n \<Longrightarrow> selection_pushdown_helper n = Inr n' \<Longrightarrow> size n' = size n"
proof (induction n arbitrary: n' rule: selection_pushdown_helper.pinduct)
  case (1 opn cs p)
  note dom = "1.hyps"(1)
  show ?case
  proof (cases "opn = ''Select''")
    case False
    with "1.prems" dom obtain cs' where c: "collect (map selection_pushdown_helper cs) = Inr cs'"
      and n': "n' = Node opn cs' p"
      by (auto simp: selection_pushdown_helper.psimps split: sum.splits)
    have "size_list size cs' = size_list size cs"
      using c "1.IH"(4) [OF False] by (rule collect_map_size)
    with n' show ?thesis by simp
  next
    case True
    with "1.prems" dom obtain c rest child where cs: "cs = c # rest"
      and hc: "selection_pushdown_helper c = Inr child"
      by (auto simp: selection_pushdown_helper.psimps split: list.splits sum.splits)
    have sc: "size child = size c"
      using "1.IH"(1) [OF True cs hc] .
    show ?thesis
    proof (cases "involved p \<noteq> {} \<and> (op child = ''Cross'' \<or> op child = ''Join'')")
      case False
      with "1.prems" dom True cs hc have "n' = Node opn (child # rest) p"
        by (auto simp: selection_pushdown_helper.psimps split: if_splits)
      with sc cs show ?thesis by simp
    next
      case push: True
      with "1.prems" dom True cs hc obtain left right la ra
        where ch: "children child = [left, right]"
          and la: "aliases left = Inr la" and ra: "aliases right = Inr ra"
        by (auto simp: selection_pushdown_helper.psimps split: list.splits sum.splits)
      from ch have szch: "size child = size left + size right + 3"
        by (cases child) simp
      consider (l) "involved p \<subseteq> la"
        | (r) "\<not> involved p \<subseteq> la" "involved p \<subseteq> ra"
        | (s) "\<not> involved p \<subseteq> la" "\<not> involved p \<subseteq> ra"
        by blast
      then show ?thesis
      proof cases
        case l
        with "1.prems" dom True cs hc push ch la ra obtain m
          where hm: "selection_pushdown_helper (Node opn (left # rest) p) = Inr m"
            and n': "n' = Node (op child) [m, right] (props child)"
          by (auto simp: selection_pushdown_helper.psimps split: sum.splits)
        have "size m = size (Node opn (left # rest) p)"
          using push l hm
          by (intro "1.IH"(2) [OF True cs hc _ _ ch refl refl la ra]) auto
        with n' szch sc cs show ?thesis by simp
      next
        case r
        with "1.prems" dom True cs hc push ch la ra obtain m
          where hm: "selection_pushdown_helper (Node opn (right # rest) p) = Inr m"
            and n': "n' = Node (op child) [left, m] (props child)"
          by (auto simp: selection_pushdown_helper.psimps split: sum.splits)
        have "size m = size (Node opn (right # rest) p)"
          using push r hm
          by (intro "1.IH"(3) [OF True cs hc _ _ ch refl refl la ra]) auto
        with n' szch sc cs show ?thesis by simp
      next
        case s
        with "1.prems" dom True cs hc push ch la ra have "n' = Node opn (child # rest) p"
          by (auto simp: selection_pushdown_helper.psimps)
        with sc cs show ?thesis by simp
      qed
    qed
  qed
qed

termination selection_pushdown_helper
proof (relation "measure size")
  show "wf (measure size)" by simp
next
  fix opn :: string and cs :: "node list" and p :: props and c rest
  assume "cs = c # rest"
  then show "(c, Node opn cs p) \<in> measure size" by simp
next
  fix opn :: string and cs :: "node list" and p :: props
    and c rest child left right and tl1 tl2 :: "node list"
  assume cs: "cs = c # rest" and hc: "selection_pushdown_helper c = Inr child"
    and dom: "selection_pushdown_helper_dom c"
    and ch: "children child = left # tl1" "tl1 = right # tl2" "tl2 = []"
  from dom hc have "size child = size c" by (rule selection_pushdown_helper_size)
  moreover from ch have "size child = size left + size right + 3"
    by (cases child) auto
  ultimately show "(Node opn (left # rest) p, Node opn cs p) \<in> measure size"
    using cs by simp
next
  fix opn :: string and cs :: "node list" and p :: props
    and c rest child left right and tl1 tl2 :: "node list"
  assume cs: "cs = c # rest" and hc: "selection_pushdown_helper c = Inr child"
    and dom: "selection_pushdown_helper_dom c"
    and ch: "children child = left # tl1" "tl1 = right # tl2" "tl2 = []"
  from dom hc have "size child = size c" by (rule selection_pushdown_helper_size)
  moreover from ch have "size child = size left + size right + 3"
    by (cases child) auto
  ultimately show "(Node opn (right # rest) p, Node opn cs p) \<in> measure size"
    using cs by simp
next
  fix opn :: string and cs :: "node list" and p :: props and x
  assume "x \<in> set cs"
  then show "(x, Node opn cs p) \<in> measure size"
    by (induction cs) auto
qed

definition selection_pushdown :: "node \<Rightarrow> error + node" where
  "selection_pushdown n = selection_pushdown_helper n"

section \<open>Pass 3: joinize\<close>

text \<open>
  The pattern \<^verbatim>\<open>\s*([\w]+)\.([\w]+)\s*=\s*([\w]+)\.([\w]+)\s*$\<close>, matched at the start of
  the text by \<^verbatim>\<open>re.match\<close>. Every repetition is greedy and is followed by a character
  outside its class, so each run is taken whole. \<open>match_equality\<close> returns the four
  groups.
\<close>

definition take_word :: "string \<Rightarrow> (string \<times> string) option" where
  "take_word s =
     (let w = takeWhile is_word s in if w = [] then None else Some (w, dropWhile is_word s))"

definition expect :: "char \<Rightarrow> string \<Rightarrow> string option" where
  "expect c s = (case s of [] \<Rightarrow> None | x # r \<Rightarrow> if x = c then Some r else None)"

definition match_attr :: "string \<Rightarrow> ((string \<times> string) \<times> string) option" where
  "match_attr s =
     (case take_word s of
        None \<Rightarrow> None
      | Some (a, r) \<Rightarrow>
          (case expect (CHR ''.'') r of
             None \<Rightarrow> None
           | Some r' \<Rightarrow>
               (case take_word r' of
                  None \<Rightarrow> None
                | Some (c, rest) \<Rightarrow> Some ((a, c), rest))))"

definition match_equality :: "string \<Rightarrow> ((string \<times> string) \<times> (string \<times> string)) option" where
  "match_equality s =
     (case match_attr (dropWhile is_space s) of
        None \<Rightarrow> None
      | Some (l, r) \<Rightarrow>
          (case expect (CHR ''='') (dropWhile is_space r) of
             None \<Rightarrow> None
           | Some r' \<Rightarrow>
               (case match_attr (dropWhile is_space r') of
                  None \<Rightarrow> None
                | Some (rt, rest) \<Rightarrow>
                    if dropWhile is_space rest = [] then Some (l, rt) else None)))"

definition dotted :: "string \<times> string \<Rightarrow> string" where
  "dotted ac = fst ac @ ''.'' @ snd ac"

fun joinize_helper :: "node \<Rightarrow> error + node" where
  "joinize_helper (Node opn cs p) =
     (case collect (map joinize_helper cs) of
        Inl e \<Rightarrow> Inl e
      | Inr cs' \<Rightarrow>
          if opn = ''Select'' then
            (case cs' of
               [] \<Rightarrow> Inl IndexError
             | c # _ \<Rightarrow>
                 if op c = ''Cross'' then
                   (case match_equality (get_pred p) of
                      None \<Rightarrow> Inr (Node opn cs' p)
                    | Some (l, r) \<Rightarrow>
                        (case children c of
                           [left, right] \<Rightarrow>
                             Inr (Node ''Join'' [left, right]
                                   (join_props (Some (get_pred p)) [dotted l] [dotted r]))
                         | _ \<Rightarrow> Inl ValueError))
                 else Inr (Node opn cs' p))
          else Inr (Node opn cs' p))"

definition joinize :: "node \<Rightarrow> error + node" where
  "joinize n = joinize_helper n"

section \<open>Pass 4: projection_pushdown\<close>

text \<open>\<^verbatim>\<open>str.split()\<close>: the maximal runs of characters that are not spaces.\<close>

fun py_split :: "string \<Rightarrow> string \<Rightarrow> string list" where
  "py_split acc [] = (if acc = [] then [] else [rev acc])"
| "py_split acc (c # cs) =
     (if is_space c then (if acc = [] then py_split [] cs else rev acc # py_split [] cs)
      else py_split (c # acc) cs)"

text \<open>
  The tokens of one aggregate text: backquotes removed, parentheses and commas replaced
  by spaces, then split at spaces. \<open>agg_attrs\<close> keeps the tokens with a dot, over the
  values of the \<^verbatim>\<open>aggs\<close> dictionary (an association list with distinct keys).
\<close>

definition agg_tokens :: "string \<Rightarrow> string list" where
  "agg_tokens v =
     py_split []
       (map (\<lambda>c. if c = CHR ''('' \<or> c = CHR '')'' \<or> c = CHR '','' then CHR '' '' else c)
         (filter (\<lambda>c. c \<noteq> CHR 0x60) v))"

definition agg_attrs :: "(string \<times> string) list \<Rightarrow> string set" where
  "agg_attrs ag = set (filter has_dot (concat (map (\<lambda>kv. agg_tokens (snd kv)) ag)))"

text \<open>
  The part of the need and of the join keys that goes to one side of a Join or Cross.
  The aliases of the side are computed inside the comprehensions, once per element, so
  a Scan without alias raises only when there is an element to test.
\<close>

definition side_needed :: "string set \<Rightarrow> string set \<Rightarrow> node \<Rightarrow> error + string set" where
  "side_needed needed keys side =
     (if needed = {} \<and> keys = {} then Inr {}
      else
        (case aliases side of
           Inl e \<Rightarrow> Inl e
         | Inr al \<Rightarrow> Inr ({a \<in> needed. before_dot a \<in> al} \<union> {k \<in> keys. before_dot k \<in> al})))"

fun projection_pushdown_helper :: "node \<Rightarrow> string set \<Rightarrow> error + node" where
  "projection_pushdown_helper (Node opn cs p) needed =
     (if opn = ''Scan'' then
        (if ''*'' \<in> needed \<or> needed = {} then Inr (Node opn cs p)
         else
           (case alias_p p of
              None \<Rightarrow> Inl KeyError
            | Some al \<Rightarrow>
                if {a \<in> needed. before_dot a = al} \<noteq> {} then
                  Inr (Node ''Project'' [Node opn cs p]
                        (no_props\<lparr>attrs :=
                           Some (sorted_list_of_set {a \<in> needed. before_dot a = al})\<rparr>))
                else Inr (Node opn cs p)))
      else if opn = ''Select'' \<or> opn = ''Having'' then
        (case cs of
           [] \<Rightarrow> Inl IndexError
         | c # rest \<Rightarrow>
             (case projection_pushdown_helper c (needed \<union> set (get_list (pred_attrs p))) of
                Inl e \<Rightarrow> Inl e
              | Inr child \<Rightarrow> Inr (Node opn (child # rest) p)))
      else if opn = ''Join'' \<or> opn = ''Cross'' then
        (case cs of
           [left, right] \<Rightarrow>
             (case side_needed needed
                     (set (get_list (join_keys_left p)) \<union> set (get_list (join_keys_right p)))
                     left of
                Inl e \<Rightarrow> Inl e
              | Inr left_needed \<Rightarrow>
                  (case side_needed needed
                          (set (get_list (join_keys_left p)) \<union> set (get_list (join_keys_right p)))
                          right of
                     Inl e \<Rightarrow> Inl e
                   | Inr right_needed \<Rightarrow>
                       (case projection_pushdown_helper left left_needed of
                          Inl e \<Rightarrow> Inl e
                        | Inr l' \<Rightarrow>
                            (case projection_pushdown_helper right right_needed of
                               Inl e \<Rightarrow> Inl e
                             | Inr r' \<Rightarrow> Inr (Node opn [l', r'] p)))))
         | _ \<Rightarrow> Inl ValueError)
      else if opn = ''Group'' then
        (case cs of
           [] \<Rightarrow> Inl IndexError
         | c # rest \<Rightarrow>
             (case projection_pushdown_helper c
                     (set (get_list (group_by p)) \<union> agg_attrs (get_list (aggs p))) of
                Inl e \<Rightarrow> Inl e
              | Inr child \<Rightarrow> Inr (Node opn (child # rest) p)))
      else if opn = ''Project'' then
        (case cs of
           [] \<Rightarrow> Inl IndexError
         | c # rest \<Rightarrow>
             (case projection_pushdown_helper c
                     (if ''*'' \<in> set (get_list (attrs p)) \<or> get_list (attrs p) = [] then needed
                      else set (get_list (attrs p))) of
                Inl e \<Rightarrow> Inl e
              | Inr child \<Rightarrow> Inr (Node opn (child # rest) p)))
      else if opn = ''Order'' then
        (case cs of
           [] \<Rightarrow> Inl IndexError
         | c # rest \<Rightarrow>
             (case projection_pushdown_helper c (needed \<union> set (get_list (order_by p))) of
                Inl e \<Rightarrow> Inl e
              | Inr child \<Rightarrow> Inr (Node opn (child # rest) p)))
      else
        (case collect (map (\<lambda>c. projection_pushdown_helper c needed) cs) of
           Inl e \<Rightarrow> Inl e
         | Inr cs' \<Rightarrow> Inr (Node opn cs' p)))"

definition projection_pushdown :: "node \<Rightarrow> error + node" where
  "projection_pushdown n =
     projection_pushdown_helper n
       (if op n = ''Project'' then set (get_list (attrs (props n)))
        else if op n = ''Order'' then set (get_list (order_by (props n)))
        else {})"

section \<open>Pass 5: reorder_joins\<close>

text \<open>
  \<open>collect_factors\<close> returns the list that the source appends to its accumulator. Only
  the first two children of a Join or Cross are visited.
\<close>

fun collect_factors :: "node \<Rightarrow> error + node list" where
  "collect_factors (Node opn cs p) =
     (if opn = ''Join'' \<or> opn = ''Cross'' then
        (case cs of
           [] \<Rightarrow> Inl IndexError
         | c0 # rest \<Rightarrow>
             (case collect_factors c0 of
                Inl e \<Rightarrow> Inl e
              | Inr f0 \<Rightarrow>
                  (case rest of
                     [] \<Rightarrow> Inl IndexError
                   | c1 # _ \<Rightarrow>
                       (case collect_factors c1 of
                          Inl e \<Rightarrow> Inl e
                        | Inr f1 \<Rightarrow> Inr (f0 @ f1)))))
      else Inr [Node opn cs p])"

fun count_selections :: "node \<Rightarrow> error + nat" where
  "count_selections (Node opn cs p) =
     (if opn = ''Select'' then
        (case cs of
           [] \<Rightarrow> Inl IndexError
         | c # _ \<Rightarrow> (case count_selections c of Inl e \<Rightarrow> Inl e | Inr k \<Rightarrow> Inr (1 + k)))
      else
        (case collect (map count_selections cs) of
           Inl e \<Rightarrow> Inl e
         | Inr ks \<Rightarrow> Inr (sum_list ks)))"

definition rebuild_chain :: "node list \<Rightarrow> error + node" where
  "rebuild_chain factors =
     (case factors of
        [] \<Rightarrow> Inl IndexError
      | f # fs \<Rightarrow> Inr (foldl (\<lambda>cur nxt. Node ''Join'' [cur, nxt] (join_props None [] [])) f fs))"

text \<open>
  \<^verbatim>\<open>factors.sort(key=count_selections, reverse=True)\<close>: the keys are computed first, for
  every factor from left to right; the sort is stable, also when reversed, so factors
  with equal keys keep their order. \<open>sort_key\<close> is the stable insertion sort of the list
  library; sorting by the negated count gives the descending order.
\<close>

definition sort_factors :: "node list \<Rightarrow> error + node list" where
  "sort_factors factors =
     (case collect (map count_selections factors) of
        Inl e \<Rightarrow> Inl e
      | Inr ks \<Rightarrow> Inr (map snd (sort_key (\<lambda>kf. - int (fst kf)) (zip ks factors))))"

lemma collect_factors_size:
  "collect_factors n = Inr fs \<Longrightarrow> f \<in> set fs \<Longrightarrow> size f \<le> size n"
proof (induction n arbitrary: fs rule: collect_factors.induct)
  case (1 opn cs p)
  show ?case
  proof (cases "opn = ''Join'' \<or> opn = ''Cross''")
    case False
    with "1.prems" show ?thesis by auto
  next
    case True
    with "1.prems"(1) obtain c0 c1 rest f0 f1 where cs: "cs = c0 # c1 # rest"
      and f0: "collect_factors c0 = Inr f0" and f1: "collect_factors c1 = Inr f1"
      and fs: "fs = f0 @ f1"
      by (auto split: list.splits sum.splits)
    from "1.prems"(2) fs consider "f \<in> set f0" | "f \<in> set f1" by auto
    then show ?thesis
    proof cases
      case 1
      have "size f \<le> size c0"
        using "1.IH"(1) [OF True _ f0 1] cs by simp
      with cs show ?thesis by simp
    next
      case 2
      have "size f \<le> size c1"
        using "1.IH"(2) [OF True _ f0 _ f1 2] cs by simp
      with cs show ?thesis by simp
    qed
  qed
qed

lemma collect_factors_smaller:
  assumes "opn = ''Join'' \<or> opn = ''Cross''"
    and "collect_factors (Node opn cs p) = Inr fs" and "f \<in> set fs"
  shows "size f < size (Node opn cs p)"
proof -
  from assms(1,2) obtain c0 c1 rest f0 f1 where cs: "cs = c0 # c1 # rest"
    and f0: "collect_factors c0 = Inr f0" and f1: "collect_factors c1 = Inr f1"
    and fs: "fs = f0 @ f1"
    by (auto split: list.splits sum.splits)
  from assms(3) fs consider "f \<in> set f0" | "f \<in> set f1" by auto
  then show ?thesis
  proof cases
    case 1
    with f0 have "size f \<le> size c0" by (rule collect_factors_size)
    with cs show ?thesis by simp
  next
    case 2
    with f1 have "size f \<le> size c1" by (rule collect_factors_size)
    with cs show ?thesis by simp
  qed
qed

function reorder_joins_helper :: "node \<Rightarrow> error + node" where
  "reorder_joins_helper (Node opn cs p) =
     (if opn = ''Join'' \<or> opn = ''Cross'' then
        (case collect_factors (Node opn cs p) of
           Inl e \<Rightarrow> Inl e
         | Inr factors \<Rightarrow>
             (case collect (map reorder_joins_helper factors) of
                Inl e \<Rightarrow> Inl e
              | Inr factors' \<Rightarrow>
                  (case sort_factors factors' of
                     Inl e \<Rightarrow> Inl e
                   | Inr sorted_factors \<Rightarrow> rebuild_chain sorted_factors)))
      else
        (case collect (map reorder_joins_helper cs) of
           Inl e \<Rightarrow> Inl e
         | Inr cs' \<Rightarrow> Inr (Node opn cs' p)))"
  by pat_completeness auto
termination
proof (relation "measure size")
  show "wf (measure size)" by simp
next
  fix opn :: string and cs :: "node list" and p :: props and factors x
  assume "opn = ''Join'' \<or> opn = ''Cross''"
    and "collect_factors (Node opn cs p) = Inr factors" and "x \<in> set factors"
  then have "size x < size (Node opn cs p)" by (rule collect_factors_smaller)
  then show "(x, Node opn cs p) \<in> measure size" by simp
next
  fix opn :: string and cs :: "node list" and p :: props and x
  assume "x \<in> set cs"
  then show "(x, Node opn cs p) \<in> measure size"
    by (induction cs) auto
qed

definition reorder_joins :: "node \<Rightarrow> error + node" where
  "reorder_joins n = reorder_joins_helper n"

section \<open>Pass 6: having_to_where\<close>

text \<open>
  \<^verbatim>\<open>re.search(r"\b(SUM|COUNT|AVG|MIN|MAX)\s*\(", pred, re.IGNORECASE)\<close>: at some position
  that is not preceded by a word character, one of the five names (in any case), then
  spaces, then an opening parenthesis.
\<close>

definition to_upper :: "char \<Rightarrow> char" where
  "to_upper c = (let n = (of_char c :: nat) in if 97 \<le> n \<and> n \<le> 122 then char_of (n - 32) else c)"

definition agg_call_at :: "string \<Rightarrow> bool" where
  "agg_call_at s =
     (\<exists>name \<in> set [''SUM'', ''COUNT'', ''AVG'', ''MIN'', ''MAX''].
        map to_upper (take (length name) s) = name \<and>
        take 1 (dropWhile is_space (drop (length name) s)) = ''('')"

fun agg_search :: "bool \<Rightarrow> string \<Rightarrow> bool" where
  "agg_search prev_word [] = False"
| "agg_search prev_word (c # cs) =
     ((\<not> prev_word \<and> agg_call_at (c # cs)) \<or> agg_search (is_word c) cs)"

definition has_agg_call :: "string \<Rightarrow> bool" where
  "has_agg_call s = agg_search False s"

fun having_to_where_helper :: "node \<Rightarrow> error + node" where
  "having_to_where_helper (Node opn cs p) =
     (if opn = ''Having'' then
        (if has_agg_call (get_pred p) then
           (case cs of
              [] \<Rightarrow> Inl IndexError
            | c # rest \<Rightarrow>
                (case having_to_where_helper c of
                   Inl e \<Rightarrow> Inl e
                 | Inr c' \<Rightarrow> Inr (Node opn (c' # rest) p)))
         else
           (case cs of
              [] \<Rightarrow> Inl IndexError
            | c # _ \<Rightarrow>
                (case having_to_where_helper c of
                   Inl e \<Rightarrow> Inl e
                 | Inr g \<Rightarrow>
                     (case children g of
                        [] \<Rightarrow> Inl IndexError
                      | gc # grest \<Rightarrow>
                          Inr (Node (op g) (Node ''Select'' [gc] p # grest) (props g))))))
      else
        (case collect (map having_to_where_helper cs) of
           Inl e \<Rightarrow> Inl e
         | Inr cs' \<Rightarrow> Inr (Node opn cs' p)))"

definition having_to_where :: "node \<Rightarrow> error + node" where
  "having_to_where n = having_to_where_helper n"

section \<open>Pass 7: dedup_selections\<close>

text \<open>
  The set \<^verbatim>\<open>seen\<close> is one mutable object shared by the whole traversal; the model passes
  it along and returns it. \<open>dedup_selections_children\<close> is the list comprehension over
  the children, from left to right.
\<close>

fun dedup_selections_helper :: "node \<Rightarrow> string set \<Rightarrow> error + node \<times> string set"
  and dedup_selections_children :: "node list \<Rightarrow> string set \<Rightarrow> error + node list \<times> string set"
where
  "dedup_selections_helper (Node opn cs p) seen =
     (if opn = ''Select'' then
        (if get_pred p \<in> seen then
           (case cs of
              [] \<Rightarrow> Inl IndexError
            | c # _ \<Rightarrow> dedup_selections_helper c seen)
         else
           (case cs of
              [] \<Rightarrow> Inl IndexError
            | c # rest \<Rightarrow>
                (case dedup_selections_helper c (insert (get_pred p) seen) of
                   Inl e \<Rightarrow> Inl e
                 | Inr (c', seen') \<Rightarrow> Inr (Node opn (c' # rest) p, seen'))))
      else
        (case dedup_selections_children cs seen of
           Inl e \<Rightarrow> Inl e
         | Inr (cs', seen') \<Rightarrow> Inr (Node opn cs' p, seen')))"
| "dedup_selections_children [] seen = Inr ([], seen)"
| "dedup_selections_children (c # cs) seen =
     (case dedup_selections_helper c seen of
        Inl e \<Rightarrow> Inl e
      | Inr (c', seen') \<Rightarrow>
          (case dedup_selections_children cs seen' of
             Inl e \<Rightarrow> Inl e
           | Inr (cs', seen2) \<Rightarrow> Inr (c' # cs', seen2)))"

definition dedup_selections :: "node \<Rightarrow> error + node" where
  "dedup_selections n = map_sum id fst (dedup_selections_helper n {})"

section \<open>The recursion limit\<close>

text \<open>
  Every pass is recursive, with one nested call of its helper per level of the tree, and
  the interpreter raises RecursionError at the call that would exceed its limit on nested
  calls. The functions of the sections above describe the passes on a stack without bound.
  Below, every function of rules.py gets one more argument, the number of calls that
  may still be nested at the moment of the call: a call with \<open>0\<close> raises RecursionError,
  and a body runs each of its own calls with one less. The order of evaluation is that of
  the source, so the exception raised is the first one met.

  Calls into the library (\<^verbatim>\<open>re\<close>, the constructor of Node, \<^verbatim>\<open>sorted\<close>, the methods of
  \<^verbatim>\<open>str\<close>, \<^verbatim>\<open>set\<close> and \<^verbatim>\<open>list\<close>) are not counted, and a comprehension runs in the frame
  of its function (as it does since Python 3.12). The library calls nest to a bounded
  depth, so the interpreter may raise a few levels before the model does, never later.
\<close>

fun aliases_lim :: "nat \<Rightarrow> node \<Rightarrow> error + string set" where
  "aliases_lim 0 n = Inl RecursionError"
| "aliases_lim (Suc d) (Node opn cs p) =
     (if opn = ''Scan'' then
        (case alias_p p of None \<Rightarrow> Inl KeyError | Some a \<Rightarrow> Inr {a})
      else
        (case collect (map (aliases_lim d) cs) of
           Inl e \<Rightarrow> Inl e
         | Inr ss \<Rightarrow> Inr (\<Union> (set ss))))"

fun breakup_conjuncts_helper_lim :: "nat \<Rightarrow> node \<Rightarrow> error + node" where
  "breakup_conjuncts_helper_lim 0 n = Inl RecursionError"
| "breakup_conjuncts_helper_lim (Suc d) (Node opn cs p) =
     (if opn = ''Select'' \<and> py_in '' AND '' (get_pred p) then
        (case cs of
           [] \<Rightarrow> Inl IndexError
         | c # _ \<Rightarrow> Inr (select_chain (re_split_and [] (get_pred p)) (get_list (pred_attrs p)) c))
      else
        (case collect (map (breakup_conjuncts_helper_lim d) cs) of
           Inl e \<Rightarrow> Inl e
         | Inr cs' \<Rightarrow> Inr (Node opn cs' p)))"

definition breakup_conjuncts_lim :: "nat \<Rightarrow> node \<Rightarrow> error + node" where
  "breakup_conjuncts_lim k n =
     (case k of 0 \<Rightarrow> Inl RecursionError | Suc d \<Rightarrow> breakup_conjuncts_helper_lim d n)"

fun selection_pushdown_helper_lim :: "nat \<Rightarrow> node \<Rightarrow> error + node" where
  "selection_pushdown_helper_lim 0 n = Inl RecursionError"
| "selection_pushdown_helper_lim (Suc d) (Node opn cs p) =
     (if opn = ''Select'' then
        (case cs of
           [] \<Rightarrow> Inl IndexError
         | c # rest \<Rightarrow>
             (case selection_pushdown_helper_lim d c of
                Inl e \<Rightarrow> Inl e
              | Inr child \<Rightarrow>
                  if involved p = {} then Inr (Node opn (child # rest) p)
                  else if op child = ''Cross'' \<or> op child = ''Join'' then
                    (case children child of
                       [left, right] \<Rightarrow>
                         (case aliases_lim d left of
                            Inl e \<Rightarrow> Inl e
                          | Inr la \<Rightarrow>
                              (case aliases_lim d right of
                                 Inl e \<Rightarrow> Inl e
                               | Inr ra \<Rightarrow>
                                   if involved p \<subseteq> la then
                                     (case selection_pushdown_helper_lim d (Node opn (left # rest) p) of
                                        Inl e \<Rightarrow> Inl e
                                      | Inr n' \<Rightarrow> Inr (Node (op child) [n', right] (props child)))
                                   else if involved p \<subseteq> ra then
                                     (case selection_pushdown_helper_lim d (Node opn (right # rest) p) of
                                        Inl e \<Rightarrow> Inl e
                                      | Inr n' \<Rightarrow> Inr (Node (op child) [left, n'] (props child)))
                                   else Inr (Node opn (child # rest) p)))
                     | _ \<Rightarrow> Inl ValueError)
                  else Inr (Node opn (child # rest) p)))
      else
        (case collect (map (selection_pushdown_helper_lim d) cs) of
           Inl e \<Rightarrow> Inl e
         | Inr cs' \<Rightarrow> Inr (Node opn cs' p)))"

definition selection_pushdown_lim :: "nat \<Rightarrow> node \<Rightarrow> error + node" where
  "selection_pushdown_lim k n =
     (case k of 0 \<Rightarrow> Inl RecursionError | Suc d \<Rightarrow> selection_pushdown_helper_lim d n)"

fun joinize_helper_lim :: "nat \<Rightarrow> node \<Rightarrow> error + node" where
  "joinize_helper_lim 0 n = Inl RecursionError"
| "joinize_helper_lim (Suc d) (Node opn cs p) =
     (case collect (map (joinize_helper_lim d) cs) of
        Inl e \<Rightarrow> Inl e
      | Inr cs' \<Rightarrow>
          if opn = ''Select'' then
            (case cs' of
               [] \<Rightarrow> Inl IndexError
             | c # _ \<Rightarrow>
                 if op c = ''Cross'' then
                   (case match_equality (get_pred p) of
                      None \<Rightarrow> Inr (Node opn cs' p)
                    | Some (l, r) \<Rightarrow>
                        (case children c of
                           [left, right] \<Rightarrow>
                             Inr (Node ''Join'' [left, right]
                                   (join_props (Some (get_pred p)) [dotted l] [dotted r]))
                         | _ \<Rightarrow> Inl ValueError))
                 else Inr (Node opn cs' p))
          else Inr (Node opn cs' p))"

definition joinize_lim :: "nat \<Rightarrow> node \<Rightarrow> error + node" where
  "joinize_lim k n =
     (case k of 0 \<Rightarrow> Inl RecursionError | Suc d \<Rightarrow> joinize_helper_lim d n)"

definition side_needed_lim ::
  "nat \<Rightarrow> string set \<Rightarrow> string set \<Rightarrow> node \<Rightarrow> error + string set" where
  "side_needed_lim d needed keys side =
     (if needed = {} \<and> keys = {} then Inr {}
      else
        (case aliases_lim d side of
           Inl e \<Rightarrow> Inl e
         | Inr al \<Rightarrow> Inr ({a \<in> needed. before_dot a \<in> al} \<union> {k \<in> keys. before_dot k \<in> al})))"

fun projection_pushdown_helper_lim :: "nat \<Rightarrow> node \<Rightarrow> string set \<Rightarrow> error + node" where
  "projection_pushdown_helper_lim 0 n needed = Inl RecursionError"
| "projection_pushdown_helper_lim (Suc d) (Node opn cs p) needed =
     (if opn = ''Scan'' then
        (if ''*'' \<in> needed \<or> needed = {} then Inr (Node opn cs p)
         else
           (case alias_p p of
              None \<Rightarrow> Inl KeyError
            | Some al \<Rightarrow>
                if {a \<in> needed. before_dot a = al} \<noteq> {} then
                  Inr (Node ''Project'' [Node opn cs p]
                        (no_props\<lparr>attrs :=
                           Some (sorted_list_of_set {a \<in> needed. before_dot a = al})\<rparr>))
                else Inr (Node opn cs p)))
      else if opn = ''Select'' \<or> opn = ''Having'' then
        (case cs of
           [] \<Rightarrow> Inl IndexError
         | c # rest \<Rightarrow>
             (case projection_pushdown_helper_lim d c (needed \<union> set (get_list (pred_attrs p))) of
                Inl e \<Rightarrow> Inl e
              | Inr child \<Rightarrow> Inr (Node opn (child # rest) p)))
      else if opn = ''Join'' \<or> opn = ''Cross'' then
        (case cs of
           [left, right] \<Rightarrow>
             (case side_needed_lim d needed
                     (set (get_list (join_keys_left p)) \<union> set (get_list (join_keys_right p)))
                     left of
                Inl e \<Rightarrow> Inl e
              | Inr left_needed \<Rightarrow>
                  (case side_needed_lim d needed
                          (set (get_list (join_keys_left p)) \<union> set (get_list (join_keys_right p)))
                          right of
                     Inl e \<Rightarrow> Inl e
                   | Inr right_needed \<Rightarrow>
                       (case projection_pushdown_helper_lim d left left_needed of
                          Inl e \<Rightarrow> Inl e
                        | Inr l' \<Rightarrow>
                            (case projection_pushdown_helper_lim d right right_needed of
                               Inl e \<Rightarrow> Inl e
                             | Inr r' \<Rightarrow> Inr (Node opn [l', r'] p)))))
         | _ \<Rightarrow> Inl ValueError)
      else if opn = ''Group'' then
        (case cs of
           [] \<Rightarrow> Inl IndexError
         | c # rest \<Rightarrow>
             (case projection_pushdown_helper_lim d c
                     (set (get_list (group_by p)) \<union> agg_attrs (get_list (aggs p))) of
                Inl e \<Rightarrow> Inl e
              | Inr child \<Rightarrow> Inr (Node opn (child # rest) p)))
      else if opn = ''Project'' then
        (case cs of
           [] \<Rightarrow> Inl IndexError
         | c # rest \<Rightarrow>
             (case projection_pushdown_helper_lim d c
                     (if ''*'' \<in> set (get_list (attrs p)) \<or> get_list (attrs p) = [] then needed
                      else set (get_list (attrs p))) of
                Inl e \<Rightarrow> Inl e
              | Inr child \<Rightarrow> Inr (Node opn (child # rest) p)))
      else if opn = ''Order'' then
        (case cs of
           [] \<Rightarrow> Inl IndexError
         | c # rest \<Rightarrow>
             (case projection_pushdown_helper_lim d c (needed \<union> set (get_list (order_by p))) of
                Inl e \<Rightarrow> Inl e
              | Inr child \<Rightarrow> Inr (Node opn (child # rest) p)))
      else
        (case collect (map (\<lambda>c. projection_pushdown_helper_lim d c needed) cs) of
           Inl e \<Rightarrow> Inl e
         | Inr cs' \<Rightarrow> Inr (Node opn cs' p)))"

definition projection_pushdown_lim :: "nat \<Rightarrow> node \<Rightarrow> error + node" where
  "projection_pushdown_lim k n =
     (case k of
        0 \<Rightarrow> Inl RecursionError
      | Suc d \<Rightarrow>
          projection_pushdown_helper_lim d n
            (if op n = ''Project'' then set (get_list (attrs (props n)))
             else if op n = ''Order'' then set (get_list (order_by (props n)))
             else {}))"

fun collect_factors_lim :: "nat \<Rightarrow> node \<Rightarrow> error + node list" where
  "collect_factors_lim 0 n = Inl RecursionError"
| "collect_factors_lim (Suc d) (Node opn cs p) =
     (if opn = ''Join'' \<or> opn = ''Cross'' then
        (case cs of
           [] \<Rightarrow> Inl IndexError
         | c0 # rest \<Rightarrow>
             (case collect_factors_lim d c0 of
                Inl e \<Rightarrow> Inl e
              | Inr f0 \<Rightarrow>
                  (case rest of
                     [] \<Rightarrow> Inl IndexError
                   | c1 # _ \<Rightarrow>
                       (case collect_factors_lim d c1 of
                          Inl e \<Rightarrow> Inl e
                        | Inr f1 \<Rightarrow> Inr (f0 @ f1)))))
      else Inr [Node opn cs p])"

fun count_selections_lim :: "nat \<Rightarrow> node \<Rightarrow> error + nat" where
  "count_selections_lim 0 n = Inl RecursionError"
| "count_selections_lim (Suc d) (Node opn cs p) =
     (if opn = ''Select'' then
        (case cs of
           [] \<Rightarrow> Inl IndexError
         | c # _ \<Rightarrow> (case count_selections_lim d c of Inl e \<Rightarrow> Inl e | Inr k \<Rightarrow> Inr (1 + k)))
      else
        (case collect (map (count_selections_lim d) cs) of
           Inl e \<Rightarrow> Inl e
         | Inr ks \<Rightarrow> Inr (sum_list ks)))"

definition rebuild_chain_lim :: "nat \<Rightarrow> node list \<Rightarrow> error + node" where
  "rebuild_chain_lim k factors =
     (case k of 0 \<Rightarrow> Inl RecursionError | Suc d \<Rightarrow> rebuild_chain factors)"

text \<open>The sort runs in the library; it calls the key function once per factor.\<close>

definition sort_factors_lim :: "nat \<Rightarrow> node list \<Rightarrow> error + node list" where
  "sort_factors_lim d factors =
     (case collect (map (count_selections_lim d) factors) of
        Inl e \<Rightarrow> Inl e
      | Inr ks \<Rightarrow> Inr (map snd (sort_key (\<lambda>kf. - int (fst kf)) (zip ks factors))))"

fun reorder_joins_helper_lim :: "nat \<Rightarrow> node \<Rightarrow> error + node" where
  "reorder_joins_helper_lim 0 n = Inl RecursionError"
| "reorder_joins_helper_lim (Suc d) (Node opn cs p) =
     (if opn = ''Join'' \<or> opn = ''Cross'' then
        (case collect_factors_lim d (Node opn cs p) of
           Inl e \<Rightarrow> Inl e
         | Inr factors \<Rightarrow>
             (case collect (map (reorder_joins_helper_lim d) factors) of
                Inl e \<Rightarrow> Inl e
              | Inr factors' \<Rightarrow>
                  (case sort_factors_lim d factors' of
                     Inl e \<Rightarrow> Inl e
                   | Inr sorted_factors \<Rightarrow> rebuild_chain_lim d sorted_factors)))
      else
        (case collect (map (reorder_joins_helper_lim d) cs) of
           Inl e \<Rightarrow> Inl e
         | Inr cs' \<Rightarrow> Inr (Node opn cs' p)))"

definition reorder_joins_lim :: "nat \<Rightarrow> node \<Rightarrow> error + node" where
  "reorder_joins_lim k n =
     (case k of 0 \<Rightarrow> Inl RecursionError | Suc d \<Rightarrow> reorder_joins_helper_lim d n)"

fun having_to_where_helper_lim :: "nat \<Rightarrow> node \<Rightarrow> error + node" where
  "having_to_where_helper_lim 0 n = Inl RecursionError"
| "having_to_where_helper_lim (Suc d) (Node opn cs p) =
     (if opn = ''Having'' then
        (if has_agg_call (get_pred p) then
           (case cs of
              [] \<Rightarrow> Inl IndexError
            | c # rest \<Rightarrow>
                (case having_to_where_helper_lim d c of
                   Inl e \<Rightarrow> Inl e
                 | Inr c' \<Rightarrow> Inr (Node opn (c' # rest) p)))
         else
           (case cs of
              [] \<Rightarrow> Inl IndexError
            | c # _ \<Rightarrow>
                (case having_to_where_helper_lim d c of
                   Inl e \<Rightarrow> Inl e
                 | Inr g \<Rightarrow>
                     (case children g of
                        [] \<Rightarrow> Inl IndexError
                      | gc # grest \<Rightarrow>
                          Inr (Node (op g) (Node ''Select'' [gc] p # grest) (props g))))))
      else
        (case collect (map (having_to_where_helper_lim d) cs) of
           Inl e \<Rightarrow> Inl e
         | Inr cs' \<Rightarrow> Inr (Node opn cs' p)))"

definition having_to_where_lim :: "nat \<Rightarrow> node \<Rightarrow> error + node" where
  "having_to_where_lim k n =
     (case k of 0 \<Rightarrow> Inl RecursionError | Suc d \<Rightarrow> having_to_where_helper_lim d n)"

fun dedup_selections_helper_lim ::
    "nat \<Rightarrow> node \<Rightarrow> string set \<Rightarrow> error + node \<times> string set"
  and dedup_selections_children_lim ::
    "nat \<Rightarrow> node list \<Rightarrow> string set \<Rightarrow> error + node list \<times> string set"
where
  "dedup_selections_helper_lim 0 n seen = Inl RecursionError"
| "dedup_selections_helper_lim (Suc d) (Node opn cs p) seen =
     (if opn = ''Select'' then
        (if get_pred p \<in> seen then
           (case cs of
              [] \<Rightarrow> Inl IndexError
            | c # _ \<Rightarrow> dedup_selections_helper_lim d c seen)
         else
           (case cs of
              [] \<Rightarrow> Inl IndexError
            | c # rest \<Rightarrow>
                (case dedup_selections_helper_lim d c (insert (get_pred p) seen) of
                   Inl e \<Rightarrow> Inl e
                 | Inr (c', seen') \<Rightarrow> Inr (Node opn (c' # rest) p, seen'))))
      else
        (case dedup_selections_children_lim d cs seen of
           Inl e \<Rightarrow> Inl e
         | Inr (cs', seen') \<Rightarrow> Inr (Node opn cs' p, seen')))"
| "dedup_selections_children_lim d [] seen = Inr ([], seen)"
| "dedup_selections_children_lim d (c # cs) seen =
     (case dedup_selections_helper_lim d c seen of
        Inl e \<Rightarrow> Inl e
      | Inr (c', seen') \<Rightarrow>
          (case dedup_selections_children_lim d cs seen' of
             Inl e \<Rightarrow> Inl e
           | Inr (cs', seen2) \<Rightarrow> Inr (c' # cs', seen2)))"

definition dedup_selections_lim :: "nat \<Rightarrow> node \<Rightarrow> error + node" where
  "dedup_selections_lim k n =
     (case k of
        0 \<Rightarrow> Inl RecursionError
      | Suc d \<Rightarrow> map_sum id fst (dedup_selections_helper_lim d n {}))"

section \<open>The driver\<close>

text \<open>
  The seven passes in their fixed order; an exception of a pass ends the run. The trace
  list that the source appends to is left out: it does not influence the tree returned.
  \<open>passes_in_order\<close> is the run on a stack without bound. \<open>optimize_pipeline\<close> is the
  driver of rules.py under the recursion limit: its own call, the call of \<^verbatim>\<open>step\<close> and
  the call of the pass each take one of the \<open>limit\<close> nested calls that are left when the
  driver is called.
\<close>

definition and_then :: "error + 'a \<Rightarrow> ('a \<Rightarrow> error + 'b) \<Rightarrow> error + 'b" where
  "and_then r f = (case r of Inl e \<Rightarrow> Inl e | Inr x \<Rightarrow> f x)"

definition passes_in_order :: "node \<Rightarrow> error + node" where
  "passes_in_order root =
     and_then (and_then (and_then (and_then (and_then (and_then
       (breakup_conjuncts root)
       selection_pushdown) joinize) projection_pushdown) reorder_joins) having_to_where)
       dedup_selections"

definition step :: "nat \<Rightarrow> (nat \<Rightarrow> node \<Rightarrow> error + node) \<Rightarrow> node \<Rightarrow> error + node" where
  "step k f n = (case k of 0 \<Rightarrow> Inl RecursionError | Suc d \<Rightarrow> f d n)"

definition optimize_pipeline :: "nat \<Rightarrow> node \<Rightarrow> error + node" where
  "optimize_pipeline limit root =
     (case limit of
        0 \<Rightarrow> Inl RecursionError
      | Suc d \<Rightarrow>
          and_then (and_then (and_then (and_then (and_then (and_then
            (step d breakup_conjuncts_lim root)
            (step d selection_pushdown_lim)) (step d joinize_lim)) (step d projection_pushdown_lim))
            (step d reorder_joins_lim)) (step d having_to_where_lim))
            (step d dedup_selections_lim))"

section \<open>Example trees\<close>

definition scan_a :: node where
  "scan_a = leaf_scan ''A'' (Some ''a'')"

definition scan_b :: node where
  "scan_b = leaf_scan ''B'' (Some ''b'')"

definition select :: "string \<Rightarrow> string list \<Rightarrow> node \<Rightarrow> node" where
  "select q as c = Node ''Select'' [c] (sel_props q as)"

definition project :: "string list \<Rightarrow> node \<Rightarrow> node" where
  "project as c = Node ''Project'' [c] (no_props\<lparr>attrs := Some as\<rparr>)"

section \<open>breakup_conjuncts: the chain and its attributes\<close>


lemma select_chain_Cons:
  "select_chain (q # qs) as c = Node ''Select'' [select_chain qs as c] (sel_props q as)"
  by (simp add: select_chain_def)

lemma select_chain_Nil: "select_chain [] as c = c"
  by (simp add: select_chain_def)







section \<open>breakup_conjuncts: which nodes are split\<close>

text \<open>The test of the pass: a Select whose predicate text contains \<^verbatim>\<open>" AND "\<close>.\<close>

definition is_conj :: "string \<Rightarrow> props \<Rightarrow> bool" where
  "is_conj opn p = (opn = ''Select'' \<and> py_in '' AND '' (get_pred p))"

text \<open>
  The pass as the specification words it: every Select that passes the test, wherever it
  stands, is replaced by the chain of its pieces, above its rewritten child.
\<close>

fun breakup_everywhere :: "node \<Rightarrow> error + node" where
  "breakup_everywhere (Node opn cs p) =
     (if is_conj opn p then
        (case cs of
           [] \<Rightarrow> Inl IndexError
         | c # _ \<Rightarrow>
             (case breakup_everywhere c of
                Inl e \<Rightarrow> Inl e
              | Inr c' \<Rightarrow>
                  Inr (select_chain (re_split_and [] (get_pred p)) (get_list (pred_attrs p)) c')))
      else
        (case collect (map breakup_everywhere cs) of
           Inl e \<Rightarrow> Inl e
         | Inr cs' \<Rightarrow> Inr (Node opn cs' p)))"

text \<open>
  \<open>conj_free\<close>: no Select of the tree passes the test. \<open>no_nested_conj\<close>: no Select that
  passes the test has another one below its first child.
\<close>

fun conj_free :: "node \<Rightarrow> bool" where
  "conj_free (Node opn cs p) = (\<not> is_conj opn p \<and> (\<forall>c \<in> set cs. conj_free c))"

fun no_nested_conj :: "node \<Rightarrow> bool" where
  "no_nested_conj (Node opn cs p) =
     (if is_conj opn p then (case cs of [] \<Rightarrow> True | c # _ \<Rightarrow> conj_free c)
      else (\<forall>c \<in> set cs. no_nested_conj c))"

lemma collect_map_id: "(\<And>c. c \<in> set cs \<Longrightarrow> f c = Inr c) \<Longrightarrow> collect (map f cs) = Inr cs"
  by (induction cs) auto

lemma breakup_conjuncts_helper_conj_free:
  "conj_free t \<Longrightarrow> breakup_conjuncts_helper t = Inr t"
proof (induction t)
  case (Node opn cs p)
  then have "collect (map breakup_conjuncts_helper cs) = Inr cs"
    by (intro collect_map_id) auto
  with Node.prems show ?case by (auto simp: is_conj_def)
qed

lemma breakup_everywhere_conj_free:
  "conj_free t \<Longrightarrow> breakup_everywhere t = Inr t"
proof (induction t)
  case (Node opn cs p)
  then have "collect (map breakup_everywhere cs) = Inr cs"
    by (intro collect_map_id) auto
  with Node.prems show ?case by simp
qed

lemma breakup_conjuncts_helper_everywhere:
  "no_nested_conj t \<Longrightarrow> breakup_conjuncts_helper t = breakup_everywhere t"
proof (induction t)
  case (Node opn cs p)
  show ?case
  proof (cases "is_conj opn p")
    case True
    with Node.prems show ?thesis
      by (cases cs) (auto simp: is_conj_def breakup_everywhere_conj_free)
  next
    case False
    with Node have "map breakup_conjuncts_helper cs = map breakup_everywhere cs"
      by (intro map_cong) auto
    then have "collect (map breakup_conjuncts_helper cs) = collect (map breakup_everywhere cs)"
      by (rule arg_cong)
    with False show ?thesis by (auto simp: is_conj_def)
  qed
qed

lemma re_split_and_nonempty: "re_split_and acc s \<noteq> []"
  by (induction acc s rule: re_split_and.induct) (auto split: option.splits)

lemma match_and_literal:
  assumes "take (length '' AND '') s = '' AND ''"
  shows "match_and s \<noteq> None"
proof -
  from assms obtain r where s: "s = '' AND '' @ r"
    by (metis append_take_drop_id)
  have "length (dropWhile is_space r) \<le> length r"
    by (rule length_dropWhile_le)
  then show ?thesis
    unfolding s by (simp add: match_and_def is_space_def Let_def)
qed

lemma re_split_and_two:
  "py_in '' AND '' s \<Longrightarrow> 2 \<le> length (re_split_and acc s)"
proof (induction acc s rule: re_split_and.induct)
  case (1 acc)
  then show ?case by simp
next
  case (2 acc c cs)
  show ?case
  proof (cases "match_and (c # cs)")
    case None
    with match_and_literal [of "c # cs"]
    have "take (length '' AND '') (c # cs) \<noteq> '' AND ''" by blast
    moreover from "2.prems"
    have "take (length '' AND '') (c # cs) = '' AND '' \<or> py_in '' AND '' cs"
      by (simp only: py_in.simps)
    ultimately have "py_in '' AND '' cs" by blast
    with "2.IH"(1) [OF None] None show ?thesis by simp
  next
    case (Some r)
    with re_split_and_nonempty [of "[]" r] show ?thesis
      by (cases "re_split_and [] r") auto
  qed
qed

text \<open>
  The pattern \<^verbatim>\<open>\s+AND\s+\<close> as a set of texts, and Python's \<^verbatim>\<open>re.split\<close> for it, stated
  without reference to the matcher: the matches are taken from left to right, each at
  the first position where the pattern matches and as long as it can be, and the pieces
  are the texts before, between and after them. \<open>regex_split s ps\<close>: \<open>ps\<close> are the pieces
  of \<open>s\<close>.
\<close>

definition is_separator :: "string \<Rightarrow> bool" where
  "is_separator sep =
     (\<exists>w1 w2. sep = w1 @ ''AND'' @ w2 \<and> w1 \<noteq> [] \<and> w2 \<noteq> []
        \<and> (\<forall>c \<in> set w1. is_space c) \<and> (\<forall>c \<in> set w2. is_space c))"

definition starts_with_separator :: "string \<Rightarrow> bool" where
  "starts_with_separator s = (\<exists>sep r. s = sep @ r \<and> is_separator sep)"

inductive regex_split :: "string \<Rightarrow> string list \<Rightarrow> bool" where
  no_match: "(\<forall>u v. s = u @ v \<longrightarrow> \<not> starts_with_separator v) \<Longrightarrow> regex_split s [s]"
| cut: "is_separator sep \<Longrightarrow> r = [] \<or> \<not> is_space (hd r) \<Longrightarrow>
        (\<forall>u v. p = u @ v \<and> v \<noteq> [] \<longrightarrow> \<not> starts_with_separator (v @ sep @ r)) \<Longrightarrow>
        regex_split r ps \<Longrightarrow> regex_split (p @ sep @ r) (p # ps)"

lemma dropWhile_spaces_append:
  "\<forall>c \<in> set w. is_space c \<Longrightarrow> dropWhile is_space (w @ r) = dropWhile is_space r"
  by (induction w) auto

lemma not_space_A: "\<not> is_space CHR ''A''"
  by (simp add: is_space_def)

lemma match_and_sound:
  assumes "match_and s = Some r"
  shows "\<exists>sep. s = sep @ r \<and> is_separator sep \<and> (r = [] \<or> \<not> is_space (hd r))"
proof -
  let ?w1 = "takeWhile is_space s" and ?r1 = "dropWhile is_space s"
  let ?r2 = "drop 3 ?r1"
  let ?w2 = "takeWhile is_space ?r2"
  from assms have l1: "length ?r1 \<noteq> length s" and t: "take 3 ?r1 = ''AND''"
    and l2: "length (dropWhile is_space ?r2) \<noteq> length ?r2" and r: "r = dropWhile is_space ?r2"
    by (auto simp: match_and_def Let_def split: if_splits)
  have s: "s = ?w1 @ ?r1" by simp
  from l1 have w1: "?w1 \<noteq> []"
    by (metis s append_Nil)
  have r1: "?r1 = ''AND'' @ ?r2"
    using t by (metis append_take_drop_id)
  have r2: "?r2 = ?w2 @ r" unfolding r by simp
  from l2 have w2: "?w2 \<noteq> []"
    by (metis r r2 append_Nil)
  have sp1: "\<forall>c \<in> set ?w1. is_space c" by (auto dest: set_takeWhileD)
  have sp2: "\<forall>c \<in> set ?w2. is_space c" by (auto dest: set_takeWhileD)
  have "s = (?w1 @ ''AND'' @ ?w2) @ r"
    using s r1 r2 by (metis append_assoc)
  moreover have "is_separator (?w1 @ ''AND'' @ ?w2)"
    unfolding is_separator_def using w1 w2 sp1 sp2 by blast
  moreover have "r = [] \<or> \<not> is_space (hd r)"
    unfolding r by (metis hd_dropWhile)
  ultimately show ?thesis by blast
qed

lemma match_and_complete:
  assumes "starts_with_separator s"
  shows "match_and s \<noteq> None"
proof -
  from assms obtain w1 w2 r where s: "s = (w1 @ ''AND'' @ w2) @ r"
    and w1: "w1 \<noteq> []" and w2: "w2 \<noteq> []"
    and sp1: "\<forall>c \<in> set w1. is_space c" and sp2: "\<forall>c \<in> set w2. is_space c"
    unfolding starts_with_separator_def is_separator_def by blast
  have d1: "dropWhile is_space s = ''AND'' @ w2 @ r"
    unfolding s using sp1 by (simp add: dropWhile_spaces_append not_space_A)
  have "length (''AND'' @ w2 @ r) < length s"
    unfolding s using w1 by simp
  then have l1: "length (dropWhile is_space s) \<noteq> length s"
    unfolding d1 by simp
  have d2: "dropWhile is_space (drop 3 (dropWhile is_space s)) = dropWhile is_space r"
    unfolding d1 using sp2 by (simp add: dropWhile_spaces_append)
  have "length (dropWhile is_space r) \<le> length r" by (rule length_dropWhile_le)
  with w2 have l2: "length (dropWhile is_space (drop 3 (dropWhile is_space s)))
      \<noteq> length (drop 3 (dropWhile is_space s))"
    unfolding d2 unfolding d1 by (cases w2) simp_all
  have t: "take 3 (dropWhile is_space s) = ''AND''"
    unfolding d1 by simp
  show ?thesis
    using l1 l2 t by (simp add: match_and_def Let_def)
qed

lemma not_starts_with_separator_Nil: "\<not> starts_with_separator []"
  by (simp add: starts_with_separator_def is_separator_def)

lemma re_split_and_regex_split_acc:
  "(\<forall>u v. rev acc = u @ v \<and> v \<noteq> [] \<longrightarrow> \<not> starts_with_separator (v @ s))
   \<Longrightarrow> regex_split (rev acc @ s) (re_split_and acc s)"
proof (induction acc s rule: re_split_and.induct)
  case (1 acc)
  have "\<forall>u v. rev acc = u @ v \<longrightarrow> \<not> starts_with_separator v"
  proof (intro allI impI)
    fix u v assume "rev acc = u @ v"
    with "1.prems" show "\<not> starts_with_separator v"
      by (cases "v = []") (auto simp: not_starts_with_separator_Nil)
  qed
  then have "regex_split (rev acc) [rev acc]" by (rule regex_split.no_match)
  then show ?case by simp
next
  case (2 acc c cs)
  show ?case
  proof (cases "match_and (c # cs)")
    case None
    have "\<forall>u v. rev (c # acc) = u @ v \<and> v \<noteq> [] \<longrightarrow> \<not> starts_with_separator (v @ cs)"
    proof (intro allI impI)
      fix u v assume a: "rev (c # acc) = u @ v \<and> v \<noteq> []"
      then obtain v' where v: "v = v' @ [c]" and u: "rev acc = u @ v'"
        by (cases v rule: rev_cases) auto
      show "\<not> starts_with_separator (v @ cs)"
      proof (cases "v' = []")
        case True
        with v None match_and_complete [of "c # cs"] show ?thesis by auto
      next
        case False
        with "2.prems" u have "\<not> starts_with_separator (v' @ c # cs)" by blast
        with v show ?thesis by simp
      qed
    qed
    from "2.IH"(1) [OF None this] None show ?thesis by simp
  next
    case (Some r)
    from match_and_sound [OF Some] obtain sep where s: "c # cs = sep @ r"
      and sep: "is_separator sep" and g: "r = [] \<or> \<not> is_space (hd r)"
      by blast
    have "regex_split (rev [] @ r) (re_split_and [] r)"
      by (rule "2.IH"(2) [OF Some]) simp
    then have rest: "regex_split r (re_split_and [] r)" by simp
    have "\<forall>u v. rev acc = u @ v \<and> v \<noteq> [] \<longrightarrow> \<not> starts_with_separator (v @ sep @ r)"
      using "2.prems" s by simp
    with sep g have "regex_split (rev acc @ sep @ r) (rev acc # re_split_and [] r)"
      using rest by (rule regex_split.cut)
    moreover have "re_split_and acc (c # cs) = rev acc # re_split_and [] r"
      using Some by simp
    moreover have "rev acc @ c # cs = rev acc @ sep @ r"
      using s by simp
    ultimately show ?thesis by (simp only:)
  qed
qed

lemma re_split_and_regex_split: "regex_split s (re_split_and [] s)"
  using re_split_and_regex_split_acc [of "[]" s] by simp

lemma py_in_iff: "py_in p s \<longleftrightarrow> (\<exists>u v. s = u @ p @ v)"
proof (induction s)
  case Nil
  then show ?case by auto
next
  case (Cons c cs)
  show ?case
  proof
    assume "py_in p (c # cs)"
    then consider "take (length p) (c # cs) = p" | "py_in p cs" by auto
    then show "\<exists>u v. c # cs = u @ p @ v"
    proof cases
      case 1
      then have "c # cs = [] @ p @ drop (length p) (c # cs)"
        by (metis append_Nil append_take_drop_id)
      then show ?thesis by blast
    next
      case 2
      with Cons.IH obtain u v where "cs = u @ p @ v" by blast
      then have "c # cs = (c # u) @ p @ v" by simp
      then show ?thesis by blast
    qed
  next
    assume "\<exists>u v. c # cs = u @ p @ v"
    then obtain u v where e: "c # cs = u @ p @ v" by blast
    show "py_in p (c # cs)"
    proof (cases u)
      case Nil
      with e have "take (length p) (c # cs) = p" by simp
      then show ?thesis by simp
    next
      case (Cons a u')
      with e have "cs = u' @ p @ v" by simp
      with Cons.IH have "py_in p cs" by blast
      then show ?thesis by simp
    qed
  qed
qed

lemma dropWhile_id: "r = [] \<or> \<not> is_space (hd r) \<Longrightarrow> dropWhile is_space r = r"
  by (cases r) auto

lemma match_and_maximal:
  assumes "is_separator sep" and "r = [] \<or> \<not> is_space (hd r)"
  shows "match_and (sep @ r) = Some r"
proof -
  from assms(1) obtain w1 w2 where sep: "sep = w1 @ ''AND'' @ w2"
    and w1: "w1 \<noteq> []" and w2: "w2 \<noteq> []"
    and sp1: "\<forall>c \<in> set w1. is_space c" and sp2: "\<forall>c \<in> set w2. is_space c"
    unfolding is_separator_def by blast
  have d1: "dropWhile is_space (sep @ r) = ''AND'' @ w2 @ r"
    unfolding sep using sp1 by (simp add: dropWhile_spaces_append not_space_A)
  have l1: "length (dropWhile is_space (sep @ r)) \<noteq> length (sep @ r)"
    unfolding d1 unfolding sep using w1 by simp
  have d2: "dropWhile is_space (drop 3 (dropWhile is_space (sep @ r))) = r"
    unfolding d1 using sp2 assms(2) by (simp add: dropWhile_spaces_append dropWhile_id)
  have l2: "length (dropWhile is_space (drop 3 (dropWhile is_space (sep @ r))))
      \<noteq> length (drop 3 (dropWhile is_space (sep @ r)))"
    unfolding d2 unfolding d1 using w2 by simp
  have t: "take 3 (dropWhile is_space (sep @ r)) = ''AND''"
    unfolding d1 by simp
  show ?thesis
    using l1 l2 t d2 by (simp add: match_and_def Let_def)
qed

lemma regex_split_unique:
  "regex_split s ps \<Longrightarrow> regex_split s qs \<Longrightarrow> ps = qs"
proof (induction s ps arbitrary: qs rule: regex_split.induct)
  case (no_match s)
  from no_match.prems show ?case
  proof (cases rule: regex_split.cases)
    case no_match
    then show ?thesis by simp
  next
    case (cut sep r p ps)
    from cut(3) have "starts_with_separator (sep @ r)"
      unfolding starts_with_separator_def by blast
    with no_match.hyps cut(1) show ?thesis by blast
  qed
next
  case (cut sep r p ps)
  from cut.hyps(1) have st: "starts_with_separator (sep @ r)"
    unfolding starts_with_separator_def by blast
  from cut.prems show ?case
  proof (cases rule: regex_split.cases)
    case no_match
    with st show ?thesis by blast
  next
    case c2: (cut sep2 r2 p2 ps2)
    from c2(3) have st2: "starts_with_separator (sep2 @ r2)"
      unfolding starts_with_separator_def by blast
    from c2(1)
    have "\<exists>us. (p = p2 @ us \<and> us @ sep @ r = sep2 @ r2) \<or> (p @ us = p2 \<and> sep @ r = us @ sep2 @ r2)"
      by (rule iffD1 [OF append_eq_append_conv2])
    then obtain us where
      "(p = p2 @ us \<and> us @ sep @ r = sep2 @ r2) \<or> (p @ us = p2 \<and> sep @ r = us @ sep2 @ r2)"
      by blast
    then have us: "us = []"
    proof
      assume a: "p = p2 @ us \<and> us @ sep @ r = sep2 @ r2"
      show ?thesis
      proof (rule ccontr)
        assume "us \<noteq> []"
        with cut.hyps(3) a have "\<not> starts_with_separator (us @ sep @ r)" by blast
        with a st2 show False by simp
      qed
    next
      assume a: "p @ us = p2 \<and> sep @ r = us @ sep2 @ r2"
      show ?thesis
      proof (rule ccontr)
        assume "us \<noteq> []"
        with c2(5) a have "\<not> starts_with_separator (us @ sep2 @ r2)" by blast
        with a st show False by simp
      qed
    qed
    with \<open>(p = p2 @ us \<and> us @ sep @ r = sep2 @ r2) \<or> (p @ us = p2 \<and> sep @ r = us @ sep2 @ r2)\<close>
    have p: "p = p2" and e: "sep @ r = sep2 @ r2" by auto
    have "match_and (sep @ r) = Some r"
      using cut.hyps(1,2) by (rule match_and_maximal)
    moreover have "match_and (sep2 @ r2) = Some r2"
      using c2(3,4) by (rule match_and_maximal)
    ultimately have r: "r = r2" using e by simp
    with c2(6) cut.IH have "ps = ps2" by blast
    with p c2(2) show ?thesis by simp
  qed
qed

lemma regex_split_iff: "regex_split s ps \<longleftrightarrow> ps = re_split_and [] s"
  using regex_split_unique re_split_and_regex_split by blast

text \<open>
  C5 (as amended): the split is textual. A Select is split when its predicate text
  contains \<^verbatim>\<open>" AND "\<close>, wherever the AND stands, also inside parentheses; it is replaced
  at its position by a chain of at least two Select nodes, one per piece of the text cut
  at every AND between spaces. The loop of the pass runs over \<^verbatim>\<open>parts[::-1]\<close> and wraps the
  child with the last piece first, so the last piece is the innermost Select and the
  first piece is on top. This holds for every such Select that does not lie below another
  one; a tree without such a Select is returned as it is. The pieces are those of
  \<open>regex_split\<close>, which has one result for every text; the test is the occurrence of the
  five characters of \<^verbatim>\<open>" AND "\<close>; the chain is fixed by its two equations.
\<close>

theorem breakup_conjuncts_textual:
  assumes "no_nested_conj t"
  shows "breakup_conjuncts t = breakup_everywhere t
         \<and> (conj_free t \<longrightarrow> breakup_conjuncts t = Inr t)
         \<and> (\<forall>s. py_in '' AND '' s \<longrightarrow> 2 \<le> length (re_split_and [] s))
         \<and> (\<forall>s ps. regex_split s ps \<longleftrightarrow> ps = re_split_and [] s)
         \<and> (\<forall>s. py_in '' AND '' s \<longleftrightarrow> (\<exists>u v. s = u @ '' AND '' @ v))
         \<and> (\<forall>q qs as c. select_chain (q # qs) as c
               = Node ''Select'' [select_chain qs as c] (sel_props q as))
         \<and> (\<forall>as c. select_chain [] as c = c)"
proof (intro conjI allI)
  show "breakup_conjuncts t = breakup_everywhere t"
    using assms by (simp add: breakup_conjuncts_def breakup_conjuncts_helper_everywhere)
  show "conj_free t \<longrightarrow> breakup_conjuncts t = Inr t"
    by (simp add: breakup_conjuncts_def breakup_conjuncts_helper_conj_free)
  show "py_in '' AND '' s \<longrightarrow> 2 \<le> length (re_split_and [] s)" for s
    by (simp add: re_split_and_two del: py_in.simps re_split_and.simps)
  show "regex_split s ps \<longleftrightarrow> ps = re_split_and [] s" for s ps
    by (rule regex_split_iff)
  show "py_in '' AND '' s \<longleftrightarrow> (\<exists>u v. s = u @ '' AND '' @ v)" for s
    by (rule py_in_iff)
  show "select_chain (q # qs) as c = Node ''Select'' [select_chain qs as c] (sel_props q as)"
    for q qs as c
    by (rule select_chain_Cons)
  show "select_chain [] as c = c" for as c
    by (rule select_chain_Nil)
qed

theorem breakup_conjuncts_textual_witness:
  "no_nested_conj (project [''a.x''] (select ''a.x > 5 AND b.y < 100'' [''a.x'', ''b.y''] scan_a))
   \<and> breakup_conjuncts (project [''a.x''] (select ''a.x > 5 AND b.y < 100'' [''a.x'', ''b.y''] scan_a))
       = Inr (project [''a.x'']
               (select ''a.x > 5'' [''a.x'', ''b.y''] (select ''b.y < 100'' [''a.x'', ''b.y''] scan_a)))
   \<and> conj_free scan_a \<and> breakup_conjuncts scan_a = Inr scan_a
   \<and> py_in '' AND '' ''p AND q'' \<and> 2 \<le> length (re_split_and [] ''p AND q'')
   \<and> regex_split ''p AND q  AND (r AND s)'' [''p'', ''q'', ''(r'', ''s)'']
   \<and> no_nested_conj (select ''p AND q  AND (r AND s)'' [''x''] scan_a)
   \<and> breakup_conjuncts (select ''p AND q  AND (r AND s)'' [''x''] scan_a)
       = Inr (select ''p'' [''x''] (select ''q'' [''x''] (select ''(r'' [''x'']
               (select ''s)'' [''x''] scan_a))))"
proof -
  let ?t = "project [''a.x''] (select ''a.x > 5 AND b.y < 100'' [''a.x'', ''b.y''] scan_a)"
  let ?u = "select ''p AND q  AND (r AND s)'' [''x''] scan_a"
  have h: "no_nested_conj ?t" by code_simp
  have e: "breakup_everywhere ?t
           = Inr (project [''a.x'']
                   (select ''a.x > 5'' [''a.x'', ''b.y''] (select ''b.y < 100'' [''a.x'', ''b.y''] scan_a)))"
    by code_simp
  have f: "conj_free scan_a" "no_nested_conj scan_a" by code_simp+
  have g: "breakup_everywhere scan_a = Inr scan_a" by code_simp
  have i: "py_in '' AND '' ''p AND q''" by simp
  have j: "re_split_and [] ''p AND q  AND (r AND s)'' = [''p'', ''q'', ''(r'', ''s)'']"
    by code_simp
  have k: "no_nested_conj ?u" by code_simp
  have l: "breakup_everywhere ?u
           = Inr (select ''p'' [''x''] (select ''q'' [''x''] (select ''(r'' [''x'']
                   (select ''s)'' [''x''] scan_a))))"
    by code_simp
  from breakup_conjuncts_textual [OF h] breakup_conjuncts_textual [OF f(2)]
    breakup_conjuncts_textual [OF k] h e f g i j k l
  show ?thesis by (simp del: re_split_and.simps py_in.simps)
qed

text \<open>
  C5 as stated fails on two counts. The predicate below is not a conjunction at the top
  level, its AND stands inside the parentheses of an OR, and the Select is split all the
  same; and the piece that comes first in the text ends up on top of the chain, not
  innermost.
\<close>

theorem breakup_conjuncts_splits_in_parentheses:
  "breakup_conjuncts
     (select ''a.x = 1 OR (a.y = 2 AND a.z = 3)'' [''a.x'', ''a.y'', ''a.z''] scan_a)
   = Inr (select ''a.x = 1 OR (a.y = 2'' [''a.x'', ''a.y'', ''a.z'']
           (select ''a.z = 3)'' [''a.x'', ''a.y'', ''a.z''] scan_a))
   \<and> breakup_conjuncts
       (select ''a.x = 1 OR (a.y = 2 AND a.z = 3)'' [''a.x'', ''a.y'', ''a.z''] scan_a)
     \<noteq> Inr (select ''a.x = 1 OR (a.y = 2 AND a.z = 3)'' [''a.x'', ''a.y'', ''a.z''] scan_a)
   \<and> breakup_conjuncts
       (select ''a.x = 1 OR (a.y = 2 AND a.z = 3)'' [''a.x'', ''a.y'', ''a.z''] scan_a)
     \<noteq> Inr (select ''a.z = 3)'' [''a.x'', ''a.y'', ''a.z'']
             (select ''a.x = 1 OR (a.y = 2'' [''a.x'', ''a.y'', ''a.z''] scan_a))"
  by code_simp

section \<open>joinize and the sides of the Cross\<close>

text \<open>
  C1: joinize would convert a Select atop \<open>Cross(L, R)\<close> only if the predicate equates an
  attribute of \<open>L\<close> with an attribute of \<open>R\<close>. The pass tests the shape of the text only:
  below, both attributes belong to the left side (alias \<open>a\<close>), the right side has the
  alias \<open>b\<close> alone, and the Select is still replaced by a Join whose right key list
  names an attribute of the left side.
\<close>

theorem joinize_ignores_sides:
  "joinize (select ''a.x = a.y'' [] (join ''Cross'' None scan_a scan_b))
     = Inr (Node ''Join'' [scan_a, scan_b] (join_props (Some ''a.x = a.y'') [''a.x''] [''a.y'']))
   \<and> aliases scan_a = Inr {''a''} \<and> aliases scan_b = Inr {''b''}"
  by code_simp

section \<open>projection_pushdown and bare attributes\<close>

text \<open>
  C3: projection_pushdown would keep every attribute that a node above needs. Below, the
  Select needs the bare attribute \<open>y\<close>; the Project inserted between the Select and the
  Scan lists \<open>A.x\<close> only, so \<open>y\<close> is removed under the Select that reads it.
\<close>

theorem projection_pushdown_drops_bare:
  "projection_pushdown (project [''A.x''] (select ''y > 5'' [''y''] (leaf_scan ''A'' None)))
     = Inr (project [''A.x'']
             (select ''y > 5'' [''y''] (project [''A.x''] (leaf_scan ''A'' None))))"
  by code_simp

section \<open>The canonical form\<close>

text \<open>
  The trees the front end builds: a left-leaning chain of Cross nodes over Scans with
  alias, a chain of Select nodes above it, then optionally a Group, optionally a Having
  above the Group, one Project, and optionally an Order at the root.
\<close>

fun cross_chain :: "node \<Rightarrow> bool" where
  "cross_chain (Node opn cs p) =
     (if opn = ''Scan'' then cs = [] \<and> alias_p p \<noteq> None
      else opn = ''Cross'' \<and>
        (case cs of
           [l, r] \<Rightarrow> cross_chain l \<and> op r = ''Scan'' \<and> children r = [] \<and> alias_p (props r) \<noteq> None
         | _ \<Rightarrow> False))"

fun select_tree :: "node \<Rightarrow> bool" where
  "select_tree (Node opn cs p) =
     (if opn = ''Select'' then (case cs of [c] \<Rightarrow> select_tree c | _ \<Rightarrow> False)
      else cross_chain (Node opn cs p))"

definition grouped :: "node \<Rightarrow> bool" where
  "grouped n =
     (if op n = ''Having'' then
        (case children n of
           [g] \<Rightarrow> op g = ''Group'' \<and> (case children g of [b] \<Rightarrow> select_tree b | _ \<Rightarrow> False)
         | _ \<Rightarrow> False)
      else if op n = ''Group'' then (case children n of [b] \<Rightarrow> select_tree b | _ \<Rightarrow> False)
      else select_tree n)"

definition canonical :: "node \<Rightarrow> bool" where
  "canonical n =
     (if op n = ''Order'' then
        (case children n of
           [pr] \<Rightarrow> op pr = ''Project'' \<and> (case children pr of [b] \<Rightarrow> grouped b | _ \<Rightarrow> False)
         | _ \<Rightarrow> False)
      else op n = ''Project'' \<and> (case children n of [b] \<Rightarrow> grouped b | _ \<Rightarrow> False))"

text \<open>The top of a canonical tree: the Project, below an Order when \<open>ob\<close> is given.\<close>

definition top_wrap :: "props option \<Rightarrow> props \<Rightarrow> node \<Rightarrow> node" where
  "top_wrap ob pp body =
     (case ob of
        None \<Rightarrow> Node ''Project'' [body] pp
      | Some q \<Rightarrow> Node ''Order'' [Node ''Project'' [body] pp] q)"

section \<open>having_to_where on canonical trees\<close>

fun having_free :: "node \<Rightarrow> bool" where
  "having_free (Node opn cs p) = (opn \<noteq> ''Having'' \<and> (\<forall>c \<in> set cs. having_free c))"

lemma having_to_where_helper_having_free:
  "having_free t \<Longrightarrow> having_to_where_helper t = Inr t"
proof (induction t)
  case (Node opn cs p)
  then have "collect (map having_to_where_helper cs) = Inr cs"
    by (intro collect_map_id) auto
  with Node.prems show ?case by simp
qed

lemma cross_chain_having_free: "cross_chain t \<Longrightarrow> having_free t"
proof (induction t)
  case (Node opn cs p)
  show ?case
  proof (cases "opn = ''Scan''")
    case True
    with Node.prems show ?thesis by simp
  next
    case False
    with Node.prems obtain l r where cs: "cs = [l, r]" and l: "cross_chain l"
      and r: "op r = ''Scan''" "children r = []" and o: "opn = ''Cross''"
      by (auto split: list.splits)
    from r have "having_free r" by (cases r) simp
    moreover from Node.IH [of l] l cs have "having_free l" by simp
    ultimately show ?thesis using cs o by simp
  qed
qed

lemma select_tree_having_free: "select_tree t \<Longrightarrow> having_free t"
proof (induction t)
  case (Node opn cs p)
  show ?case
  proof (cases "opn = ''Select''")
    case True
    with Node.prems obtain c where "cs = [c]" "select_tree c"
      by (auto split: list.splits)
    with Node.IH [of c] True show ?thesis by simp
  next
    case False
    with Node.prems have "cross_chain (Node opn cs p)" by simp
    then show ?thesis by (rule cross_chain_having_free)
  qed
qed

lemma canonical_cases:
  assumes "canonical t"
  obtains (having) ob pp hp gp b where
      "t = top_wrap ob pp (Node ''Having'' [Node ''Group'' [b] gp] hp)" "select_tree b"
    | (group) ob pp gp b where "t = top_wrap ob pp (Node ''Group'' [b] gp)" "select_tree b"
    | (plain) ob pp b where "t = top_wrap ob pp b" "select_tree b"
      "op b \<noteq> ''Having''" "op b \<noteq> ''Group''"
proof -
  from assms obtain ob pp body where t: "t = top_wrap ob pp body" and g: "grouped body"
  proof (cases "op t = ''Order''")
    case True
    with assms obtain pr where c: "children t = [pr]" and pr: "op pr = ''Project''"
      and b: "case children pr of [b] \<Rightarrow> grouped b | _ \<Rightarrow> False"
      by (auto simp: canonical_def split: list.splits)
    from b obtain body where cb: "children pr = [body]" and g: "grouped body"
      by (auto split: list.splits)
    from c True pr cb have "t = top_wrap (Some (props t)) (props pr) body"
      by (cases t; cases pr) (simp add: top_wrap_def)
    with g that show ?thesis by blast
  next
    case False
    with assms obtain body where c: "children t = [body]" and o: "op t = ''Project''"
      and g: "grouped body"
      by (auto simp: canonical_def split: list.splits)
    from c o have "t = top_wrap None (props t) body"
      by (cases t) (simp add: top_wrap_def)
    with g that show ?thesis by blast
  qed
  show ?thesis
  proof (cases "op body = ''Having''")
    case True
    with g obtain gr b where "children body = [gr]" "op gr = ''Group''" "children gr = [b]"
      "select_tree b"
      by (auto simp: grouped_def split: list.splits)
    with True obtain hp gp where "body = Node ''Having'' [Node ''Group'' [b] gp] hp"
      by (cases body; cases gr) simp
    with t have "t = top_wrap ob pp (Node ''Having'' [Node ''Group'' [b] gp] hp)" by simp
    then show ?thesis using \<open>select_tree b\<close> by (rule having)
  next
    case nh: False
    show ?thesis
    proof (cases "op body = ''Group''")
      case True
      with g nh obtain b where "children body = [b]" "select_tree b"
        by (auto simp: grouped_def split: list.splits)
      with True obtain gp where "body = Node ''Group'' [b] gp"
        by (cases body) simp
      with t have "t = top_wrap ob pp (Node ''Group'' [b] gp)" by simp
      then show ?thesis using \<open>select_tree b\<close> by (rule group)
    next
      case False
      with g nh have "select_tree body" by (simp add: grouped_def)
      with t nh False show ?thesis by (intro plain)
    qed
  qed
qed

text \<open>
  The test of the pass, stated on the text itself: somewhere in the text stands one of
  the five names, every letter as a capital or as the small letter (the code point of the
  capital plus 32), then any number of spaces, then an opening parenthesis, and the
  character before the name, if there is one, is not a word character (the boundary
  \<^verbatim>\<open>\b\<close> before a letter).
\<close>

definition agg_names :: "string list" where
  "agg_names = [''SUM'', ''COUNT'', ''AVG'', ''MIN'', ''MAX'']"

definition same_letter :: "char \<Rightarrow> char \<Rightarrow> bool" where
  "same_letter c u = (c = u \<or> (of_char c :: nat) = of_char u + 32)"

definition names_agg_call :: "string \<Rightarrow> bool" where
  "names_agg_call s =
     (\<exists>pre name ws rest N. s = pre @ name @ ws @ CHR ''('' # rest
        \<and> N \<in> set agg_names \<and> list_all2 same_letter name N
        \<and> (\<forall>c \<in> set ws. is_space c)
        \<and> (pre = [] \<or> \<not> is_word (last pre)))"

lemma to_upper_same_letter:
  assumes "65 \<le> (of_char u :: nat)" and "(of_char u :: nat) \<le> 90"
  shows "to_upper c = u \<longleftrightarrow> same_letter c u"
proof
  assume t: "to_upper c = u"
  show "same_letter c u"
  proof (cases "97 \<le> (of_char c :: nat) \<and> (of_char c :: nat) \<le> 122")
    case True
    with t have "char_of ((of_char c :: nat) - 32) = u" by (simp add: to_upper_def)
    then have "(of_char u :: nat) = (of_char c - 32) mod 256"
      by (metis of_char_of)
    moreover from True have "(of_char c :: nat) - 32 < 256" by linarith
    then have "((of_char c :: nat) - 32) mod 256 = of_char c - 32"
      by (rule mod_less)
    ultimately have "(of_char c :: nat) = of_char u + 32" using True by simp
    then show ?thesis by (simp add: same_letter_def)
  next
    case False
    with t have "c = u" by (auto simp: to_upper_def)
    then show ?thesis by (simp add: same_letter_def)
  qed
next
  assume "same_letter c u"
  then consider "c = u" | "(of_char c :: nat) = of_char u + 32"
    by (auto simp: same_letter_def)
  then show "to_upper c = u"
  proof cases
    case 1
    with assms show ?thesis by (simp add: to_upper_def)
  next
    case 2
    with assms have "to_upper c = char_of (of_char u :: nat)" by (simp add: to_upper_def)
    then show ?thesis by simp
  qed
qed

lemma agg_names_capitals:
  "N \<in> set agg_names \<Longrightarrow> u \<in> set N \<Longrightarrow> 65 \<le> (of_char u :: nat) \<and> (of_char u :: nat) \<le> 90"
  by (auto simp: agg_names_def)

lemma map_to_upper_agg_name:
  assumes "N \<in> set agg_names"
  shows "map to_upper name = N \<longleftrightarrow> list_all2 same_letter name N"
proof -
  have "map to_upper name = N \<longleftrightarrow> list_all2 (\<lambda>c u. to_upper c = u) name N"
    by (simp add: list_all2_eq [of "map to_upper name" N] list_all2_map1)
  also have "\<dots> \<longleftrightarrow> list_all2 same_letter name N"
  proof
    assume "list_all2 (\<lambda>c u. to_upper c = u) name N"
    then show "list_all2 same_letter name N"
      by (rule list.rel_mono_strong)
        (use assms agg_names_capitals to_upper_same_letter in blast)
  next
    assume "list_all2 same_letter name N"
    then show "list_all2 (\<lambda>c u. to_upper c = u) name N"
      by (rule list.rel_mono_strong)
        (use assms agg_names_capitals to_upper_same_letter in blast)
  qed
  finally show ?thesis .
qed

lemma not_space_paren: "\<not> is_space CHR ''(''"
  by (simp add: is_space_def)

lemma agg_call_at_iff:
  "agg_call_at v \<longleftrightarrow>
     (\<exists>name ws rest N. v = name @ ws @ CHR ''('' # rest \<and> N \<in> set agg_names
        \<and> list_all2 same_letter name N \<and> (\<forall>c \<in> set ws. is_space c))"
proof
  assume "agg_call_at v"
  then obtain N where N: "N \<in> set agg_names"
    and u: "map to_upper (take (length N) v) = N"
    and t: "take 1 (dropWhile is_space (drop (length N) v)) = ''(''"
    unfolding agg_call_at_def agg_names_def by blast
  let ?d = "drop (length N) v"
  from t have "dropWhile is_space ?d = CHR ''('' # tl (dropWhile is_space ?d)"
    by (cases "dropWhile is_space ?d") auto
  then have "?d = takeWhile is_space ?d @ CHR ''('' # tl (dropWhile is_space ?d)"
    by (metis takeWhile_dropWhile_id)
  then have "v = take (length N) v @ takeWhile is_space ?d @ CHR ''('' # tl (dropWhile is_space ?d)"
    by (metis append_take_drop_id)
  moreover from N u have "list_all2 same_letter (take (length N) v) N"
    by (simp only: map_to_upper_agg_name)
  moreover have "\<forall>c \<in> set (takeWhile is_space ?d). is_space c"
    by (auto dest: set_takeWhileD)
  ultimately show "\<exists>name ws rest N. v = name @ ws @ CHR ''('' # rest \<and> N \<in> set agg_names
        \<and> list_all2 same_letter name N \<and> (\<forall>c \<in> set ws. is_space c)"
    using N by blast
next
  assume "\<exists>name ws rest N. v = name @ ws @ CHR ''('' # rest \<and> N \<in> set agg_names
        \<and> list_all2 same_letter name N \<and> (\<forall>c \<in> set ws. is_space c)"
  then obtain name ws rest N where v: "v = name @ ws @ CHR ''('' # rest"
    and N: "N \<in> set agg_names" and l: "list_all2 same_letter name N"
    and sp: "\<forall>c \<in> set ws. is_space c"
    by blast
  from l have len: "length name = length N" by (rule list_all2_lengthD)
  from N l have u: "map to_upper name = N" by (simp only: map_to_upper_agg_name)
  have tk: "take (length N) v = name" unfolding v using len by simp
  have dr: "drop (length N) v = ws @ CHR ''('' # rest" unfolding v using len by simp
  have "dropWhile is_space (ws @ CHR ''('' # rest) = CHR ''('' # rest"
    using sp by (simp add: dropWhile_spaces_append not_space_paren)
  then have "take 1 (dropWhile is_space (drop (length N) v)) = ''(''"
    unfolding dr by simp
  with u tk N show "agg_call_at v"
    unfolding agg_call_at_def agg_names_def by auto
qed

lemma agg_call_at_Nil: "\<not> agg_call_at []"
  by (simp add: agg_call_at_def)

lemma agg_search_iff:
  "agg_search prev s \<longleftrightarrow>
     (\<exists>pre v. s = pre @ v \<and> agg_call_at v \<and> (if pre = [] then \<not> prev else \<not> is_word (last pre)))"
proof (induction s arbitrary: prev)
  case Nil
  then show ?case by (simp add: agg_call_at_Nil)
next
  case (Cons c cs)
  show ?case
  proof
    assume "agg_search prev (c # cs)"
    then consider "\<not> prev" "agg_call_at (c # cs)" | "agg_search (is_word c) cs" by auto
    then show "\<exists>pre v. c # cs = pre @ v \<and> agg_call_at v
        \<and> (if pre = [] then \<not> prev else \<not> is_word (last pre))"
    proof cases
      case 1
      then have "c # cs = [] @ (c # cs) \<and> agg_call_at (c # cs)
        \<and> (if ([] :: string) = [] then \<not> prev else \<not> is_word (last []))" by simp
      then show ?thesis by blast
    next
      case 2
      with Cons.IH obtain pre v where cs: "cs = pre @ v" and a: "agg_call_at v"
        and b: "if pre = [] then \<not> is_word c else \<not> is_word (last pre)" by blast
      from cs a b have "c # cs = (c # pre) @ v \<and> agg_call_at v
        \<and> (if c # pre = [] then \<not> prev else \<not> is_word (last (c # pre)))"
        by (cases "pre = []") simp_all
      then show ?thesis by blast
    qed
  next
    assume "\<exists>pre v. c # cs = pre @ v \<and> agg_call_at v
        \<and> (if pre = [] then \<not> prev else \<not> is_word (last pre))"
    then obtain pre v where e: "c # cs = pre @ v" and a: "agg_call_at v"
      and b: "if pre = [] then \<not> prev else \<not> is_word (last pre)" by blast
    show "agg_search prev (c # cs)"
    proof (cases pre)
      case Nil
      with e have "v = c # cs" by simp
      with a have "agg_call_at (c # cs)" by simp
      moreover from b Nil have "\<not> prev" by simp
      ultimately show ?thesis by simp
    next
      case (Cons x pre')
      with e have cs: "cs = pre' @ v" and x: "x = c" by simp_all
      from b Cons x have "if pre' = [] then \<not> is_word c else \<not> is_word (last pre')"
        by (cases "pre' = []") simp_all
      with cs a Cons.IH have "agg_search (is_word c) cs" by blast
      then show ?thesis by simp
    qed
  qed
qed

lemma has_agg_call_iff: "has_agg_call s \<longleftrightarrow> names_agg_call s"
proof
  assume "has_agg_call s"
  then obtain pre v where s: "s = pre @ v" and a: "agg_call_at v"
    and b: "pre = [] \<or> \<not> is_word (last pre)"
    unfolding has_agg_call_def agg_search_iff by (auto split: if_splits)
  from a obtain name ws rest N where "v = name @ ws @ CHR ''('' # rest" "N \<in> set agg_names"
    "list_all2 same_letter name N" "\<forall>c \<in> set ws. is_space c"
    unfolding agg_call_at_iff by blast
  with s b show "names_agg_call s"
    unfolding names_agg_call_def by blast
next
  assume "names_agg_call s"
  then obtain pre name ws rest N where s: "s = pre @ name @ ws @ CHR ''('' # rest"
    and N: "N \<in> set agg_names" "list_all2 same_letter name N" "\<forall>c \<in> set ws. is_space c"
    and b: "pre = [] \<or> \<not> is_word (last pre)"
    unfolding names_agg_call_def by blast
  from N have "agg_call_at (name @ ws @ CHR ''('' # rest)"
    unfolding agg_call_at_iff by blast
  moreover from b have "if pre = [] then \<not> False else \<not> is_word (last pre)" by auto
  ultimately show "has_agg_call s"
    unfolding has_agg_call_def agg_search_iff using s by blast
qed

text \<open>A query with a HAVING clause over one relation, and the same with the clause moved.\<close>

definition having_query :: "string \<Rightarrow> string list \<Rightarrow> node" where
  "having_query q as =
     project [''a.x'']
       (Node ''Having'' [Node ''Group'' [scan_a] (no_props\<lparr>group_by := Some [''a.x'']\<rparr>)]
         (sel_props q as))"

definition where_query :: "string \<Rightarrow> string list \<Rightarrow> node" where
  "where_query q as =
     project [''a.x'']
       (Node ''Group'' [select q as scan_a] (no_props\<lparr>group_by := Some [''a.x'']\<rparr>))"

text \<open>
  C6: on a canonical tree, having_to_where removes the Having and puts a Select with the
  properties of the Having (its predicate and referenced attributes) between the Group
  and the former child of the Group exactly when the predicate text of the Having has no
  call of SUM, COUNT, AVG, MIN or MAX (\<open>names_agg_call\<close>: in capitals or small letters,
  anywhere in the text, not as the tail of a longer word); a Having with such a call stays
  as it is, and so does a tree without Having.
\<close>

theorem having_to_where_moves:
  assumes "canonical t"
  shows "(\<exists>ob pp hp gp b. t = top_wrap ob pp (Node ''Having'' [Node ''Group'' [b] gp] hp)
            \<and> having_to_where t =
                Inr (top_wrap ob pp
                      (if names_agg_call (get_pred hp) then Node ''Having'' [Node ''Group'' [b] gp] hp
                       else Node ''Group'' [Node ''Select'' [b] hp] gp)))
         \<or> (having_free t \<and> having_to_where t = Inr t)"
  using assms
proof (cases rule: canonical_cases)
  case (having ob pp hp gp b)
  from having(2) have "having_to_where_helper b = Inr b"
    by (intro having_to_where_helper_having_free select_tree_having_free)
  then have "having_to_where t =
      Inr (top_wrap ob pp
            (if names_agg_call (get_pred hp) then Node ''Having'' [Node ''Group'' [b] gp] hp
             else Node ''Group'' [Node ''Select'' [b] hp] gp))"
    unfolding having(1)
    by (cases ob) (simp_all add: having_to_where_def top_wrap_def has_agg_call_iff)
  with having(1) show ?thesis by blast
next
  case (group ob pp gp b)
  from group(2) have "having_free b" by (rule select_tree_having_free)
  with group(1) have hf: "having_free t" by (cases ob) (simp_all add: top_wrap_def)
  then have "having_to_where t = Inr t"
    unfolding having_to_where_def by (rule having_to_where_helper_having_free)
  with hf show ?thesis by blast
next
  case (plain ob pp b)
  from plain(2) have "having_free b" by (rule select_tree_having_free)
  with plain(1) have hf: "having_free t" by (cases ob) (simp_all add: top_wrap_def)
  then have "having_to_where t = Inr t"
    unfolding having_to_where_def by (rule having_to_where_helper_having_free)
  with hf show ?thesis by blast
qed

theorem having_to_where_moves_witness:
  "canonical (having_query ''a.x > 5'' [''a.x''])
   \<and> \<not> names_agg_call ''a.x > 5''
   \<and> having_to_where (having_query ''a.x > 5'' [''a.x'']) = Inr (where_query ''a.x > 5'' [''a.x''])
   \<and> names_agg_call ''COUNT(*) > 1''
   \<and> having_to_where (having_query ''COUNT(*) > 1'' []) = Inr (having_query ''COUNT(*) > 1'' [])
   \<and> names_agg_call ''count (*) > 1''
   \<and> having_to_where (having_query ''count (*) > 1'' []) = Inr (having_query ''count (*) > 1'' [])
   \<and> names_agg_call ''1 < Sum(a.y)''
   \<and> having_to_where (having_query ''1 < Sum(a.y)'' [''a.y''])
       = Inr (having_query ''1 < Sum(a.y)'' [''a.y''])
   \<and> \<not> names_agg_call ''a.checksum(1) > a.max''
   \<and> having_to_where (having_query ''a.checksum(1) > a.max'' [''a.max''])
       = Inr (where_query ''a.checksum(1) > a.max'' [''a.max''])"
proof -
  have key: "having_to_where (having_query q as)
      = Inr (if names_agg_call q then having_query q as else where_query q as)" for q as
  proof -
    have c: "canonical (having_query q as)"
      by (simp add: canonical_def having_query_def project_def grouped_def scan_a_def
          leaf_scan_def)
    have nf: "\<not> having_free (having_query q as)"
      by (simp add: having_query_def project_def)
    from having_to_where_moves [OF c] nf obtain ob pp hp gp b
      where t: "having_query q as = top_wrap ob pp (Node ''Having'' [Node ''Group'' [b] gp] hp)"
        and r: "having_to_where (having_query q as) =
          Inr (top_wrap ob pp
                (if names_agg_call (get_pred hp) then Node ''Having'' [Node ''Group'' [b] gp] hp
                 else Node ''Group'' [Node ''Select'' [b] hp] gp))"
      by blast
    from t have "ob = None \<and> pp = no_props\<lparr>attrs := Some [''a.x'']\<rparr> \<and> b = scan_a
        \<and> gp = no_props\<lparr>group_by := Some [''a.x'']\<rparr> \<and> hp = sel_props q as"
      by (cases ob) (simp_all add: top_wrap_def project_def having_query_def)
    with r show ?thesis
      by (simp add: top_wrap_def project_def select_def having_query_def where_query_def
          get_pred_def sel_props_def)
  qed
  have c: "canonical (having_query ''a.x > 5'' [''a.x''])" by code_simp
  have a: "\<not> has_agg_call ''a.x > 5''" "has_agg_call ''COUNT(*) > 1''"
    "has_agg_call ''count (*) > 1''" "has_agg_call ''1 < Sum(a.y)''"
    "\<not> has_agg_call ''a.checksum(1) > a.max''"
    by code_simp+
  from a have n: "\<not> names_agg_call ''a.x > 5''" "names_agg_call ''COUNT(*) > 1''"
    "names_agg_call ''count (*) > 1''" "names_agg_call ''1 < Sum(a.y)''"
    "\<not> names_agg_call ''a.checksum(1) > a.max''"
    by (simp_all only: has_agg_call_iff simp_thms)
  from c n key [of "''a.x > 5''"] key [of "''COUNT(*) > 1''"] key [of "''count (*) > 1''"]
    key [of "''1 < Sum(a.y)''"] key [of "''a.checksum(1) > a.max''"]
  show ?thesis by (simp only: if_True if_False simp_thms)
qed

section \<open>dedup_selections: one run removes every repetition\<close>

text \<open>
  \<open>reached_preds\<close>: the predicate texts of the Select nodes the traversal visits, in its
  order (a Select passes the traversal on to its first child only). \<open>selects_fed\<close>: every
  Select the traversal visits has a child.
\<close>

fun reached_preds :: "node \<Rightarrow> string list" where
  "reached_preds (Node opn cs p) =
     (if opn = ''Select'' then get_pred p # (case cs of [] \<Rightarrow> [] | c # _ \<Rightarrow> reached_preds c)
      else concat (map reached_preds cs))"

fun selects_fed :: "node \<Rightarrow> bool" where
  "selects_fed (Node opn cs p) =
     (if opn = ''Select'' then (case cs of [] \<Rightarrow> False | c # _ \<Rightarrow> selects_fed c)
      else (\<forall>c \<in> set cs. selects_fed c))"

text \<open>
  What holds of the result of a run that started with \<open>seen\<close> and ended with \<open>seen'\<close>: the
  texts it still holds are distinct, none was seen before, and they are what was added.
\<close>

definition deduped :: "node \<Rightarrow> string set \<Rightarrow> string set \<Rightarrow> bool" where
  "deduped t seen seen' =
     (selects_fed t \<and> distinct (reached_preds t) \<and> set (reached_preds t) \<inter> seen = {}
      \<and> seen' = seen \<union> set (reached_preds t))"

definition deduped_list :: "node list \<Rightarrow> string set \<Rightarrow> string set \<Rightarrow> bool" where
  "deduped_list ts seen seen' =
     ((\<forall>t \<in> set ts. selects_fed t) \<and> distinct (concat (map reached_preds ts))
      \<and> set (concat (map reached_preds ts)) \<inter> seen = {}
      \<and> seen' = seen \<union> set (concat (map reached_preds ts)))"

lemma dedup_children_out:
  assumes "\<And>c s c' s'. c \<in> set cs \<Longrightarrow> dedup_selections_helper c s = Inr (c', s')
             \<Longrightarrow> deduped c' s s'"
    and "dedup_selections_children cs s = Inr (cs', s')"
  shows "deduped_list cs' s s'"
  using assms
proof (induction cs arbitrary: s cs' s')
  case Nil
  then show ?case by (simp add: deduped_list_def)
next
  case (Cons c cs)
  from Cons.prems(2) obtain c' s1 cs1 where h: "dedup_selections_helper c s = Inr (c', s1)"
    and r: "dedup_selections_children cs s1 = Inr (cs1, s')" and cs': "cs' = c' # cs1"
    by (auto split: sum.splits)
  from Cons.prems(1) [OF _ h] have d1: "deduped c' s s1" by simp
  have d2: "deduped_list cs1 s1 s'"
    using Cons.prems(1) r by (intro Cons.IH) auto
  from d1 d2 show ?case
    unfolding cs' deduped_def deduped_list_def by auto
qed

lemma dedup_helper_out:
  "dedup_selections_helper t s = Inr (t', s') \<Longrightarrow> deduped t' s s'"
proof (induction t arbitrary: s t' s')
  case (Node opn cs p)
  show ?case
  proof (cases "opn = ''Select''")
    case False
    with Node.prems obtain cs' where r: "dedup_selections_children cs s = Inr (cs', s')"
      and t': "t' = Node opn cs' p"
      by (auto split: sum.splits)
    have "deduped_list cs' s s'"
      using Node.IH r by (rule dedup_children_out)
    with False t' show ?thesis by (simp add: deduped_def deduped_list_def)
  next
    case True
    with Node.prems obtain c rest where cs: "cs = c # rest"
      by (cases cs) (auto split: if_splits)
    show ?thesis
    proof (cases "get_pred p \<in> s")
      case seen: True
      with True cs Node.prems have "dedup_selections_helper c s = Inr (t', s')" by simp
      with Node.IH [of c] cs show ?thesis by simp
    next
      case fresh: False
      with True cs Node.prems obtain c' where
        h: "dedup_selections_helper c (insert (get_pred p) s) = Inr (c', s')"
        and t': "t' = Node opn (c' # rest) p"
        by (auto split: sum.splits)
      from Node.IH [of c, OF _ h] cs have "deduped c' (insert (get_pred p) s) s'" by simp
      with True t' fresh show ?thesis by (auto simp: deduped_def)
    qed
  qed
qed

lemma dedup_children_fix:
  assumes "\<And>c s. c \<in> set cs \<Longrightarrow> deduped c s (s \<union> set (reached_preds c))
             \<Longrightarrow> dedup_selections_helper c s = Inr (c, s \<union> set (reached_preds c))"
    and "deduped_list cs s s'"
  shows "dedup_selections_children cs s = Inr (cs, s')"
  using assms
proof (induction cs arbitrary: s)
  case Nil
  then show ?case by (simp add: deduped_list_def)
next
  case (Cons c cs)
  let ?s1 = "s \<union> set (reached_preds c)"
  from Cons.prems(2) have d1: "deduped c s ?s1" and d2: "deduped_list cs ?s1 s'"
    by (auto simp: deduped_def deduped_list_def)
  from Cons.prems(1) [OF _ d1] have "dedup_selections_helper c s = Inr (c, ?s1)" by simp
  moreover have "dedup_selections_children cs ?s1 = Inr (cs, s')"
    using Cons.prems(1) d2 by (intro Cons.IH) auto
  ultimately show ?case by simp
qed

lemma dedup_helper_fix:
  "deduped t s (s \<union> set (reached_preds t))
   \<Longrightarrow> dedup_selections_helper t s = Inr (t, s \<union> set (reached_preds t))"
proof (induction t arbitrary: s)
  case (Node opn cs p)
  show ?case
  proof (cases "opn = ''Select''")
    case False
    with Node.prems have "deduped_list cs s (s \<union> set (concat (map reached_preds cs)))"
      by (simp add: deduped_def deduped_list_def)
    with Node.IH have "dedup_selections_children cs s
        = Inr (cs, s \<union> set (concat (map reached_preds cs)))"
      by (rule dedup_children_fix)
    with False show ?thesis by simp
  next
    case True
    with Node.prems obtain c rest where cs: "cs = c # rest"
      by (cases cs) (auto simp: deduped_def)
    from True cs Node.prems have fresh: "get_pred p \<notin> s"
      and d: "deduped c (insert (get_pred p) s) (insert (get_pred p) s \<union> set (reached_preds c))"
      by (auto simp: deduped_def)
    from Node.IH [of c, OF _ d] cs
    have "dedup_selections_helper c (insert (get_pred p) s)
        = Inr (c, insert (get_pred p) s \<union> set (reached_preds c))" by simp
    with True cs fresh show ?thesis by simp
  qed
qed

lemma dedup_selections_fixpoint:
  assumes "dedup_selections t = Inr t'"
  shows "dedup_selections t' = Inr t'"
proof -
  from assms obtain s' where h: "dedup_selections_helper t {} = Inr (t', s')"
    by (cases "dedup_selections_helper t {}") (auto simp: dedup_selections_def)
  then have "deduped t' {} s'" by (rule dedup_helper_out)
  then have "deduped t' {} ({} \<union> set (reached_preds t'))"
    by (simp add: deduped_def)
  then have "dedup_selections_helper t' {} = Inr (t', {} \<union> set (reached_preds t'))"
    by (rule dedup_helper_fix)
  then show ?thesis by (simp add: dedup_selections_def)
qed


text \<open>
  The nodes of a tree in pre-order, as pairs of kind and properties, and the removal from
  such a sequence of every Select whose predicate text an earlier Select of the sequence
  (or the set \<open>seen\<close>) already has.
\<close>

fun preorder :: "node \<Rightarrow> (string \<times> props) list" where
  "preorder (Node opn cs p) = (opn, p) # concat (map preorder cs)"

fun drop_seen :: "(string \<times> props) list \<Rightarrow> string set \<Rightarrow> (string \<times> props) list" where
  "drop_seen [] seen = []"
| "drop_seen (x # xs) seen =
     (if fst x = ''Select'' then
        (if get_pred (snd x) \<in> seen then drop_seen xs seen
         else x # drop_seen xs (insert (get_pred (snd x)) seen))
      else x # drop_seen xs seen)"

fun selects_unary :: "node \<Rightarrow> bool" where
  "selects_unary (Node opn cs p) =
     ((opn = ''Select'' \<longrightarrow> length cs = 1) \<and> (\<forall>c \<in> set cs. selects_unary c))"

definition dedup_spec :: "node \<Rightarrow> string set \<Rightarrow> bool" where
  "dedup_spec t seen =
     (\<exists>t' seen'. dedup_selections_helper t seen = Inr (t', seen')
        \<and> (\<forall>rest. drop_seen (preorder t @ rest) seen = preorder t' @ drop_seen rest seen'))"

lemma dedup_children_preorder:
  assumes "\<And>c s. c \<in> set cs \<Longrightarrow> dedup_spec c s"
  shows "\<exists>cs' seen'. dedup_selections_children cs seen = Inr (cs', seen')
           \<and> (\<forall>rest. drop_seen (concat (map preorder cs) @ rest) seen
                        = concat (map preorder cs') @ drop_seen rest seen')"
  using assms
proof (induction cs arbitrary: seen)
  case Nil
  then show ?case by simp
next
  case (Cons c cs)
  from Cons.prems [of c seen] obtain c' s1
    where h: "dedup_selections_helper c seen = Inr (c', s1)"
      and p: "\<And>rest. drop_seen (preorder c @ rest) seen = preorder c' @ drop_seen rest s1"
    by (auto simp: dedup_spec_def)
  from Cons.IH [of s1] Cons.prems obtain cs' s2
    where r: "dedup_selections_children cs s1 = Inr (cs', s2)"
      and q: "\<And>rest. drop_seen (concat (map preorder cs) @ rest) s1
                       = concat (map preorder cs') @ drop_seen rest s2"
    by auto
  from h r have "dedup_selections_children (c # cs) seen = Inr (c' # cs', s2)" by simp
  moreover have "drop_seen (concat (map preorder (c # cs)) @ rest) seen
      = concat (map preorder (c' # cs')) @ drop_seen rest s2" for rest
    using p [of "concat (map preorder cs) @ rest"] q [of rest] by simp
  ultimately show ?case by blast
qed

lemma dedup_helper_preorder_all: "selects_unary t \<Longrightarrow> \<forall>s. dedup_spec t s"
proof (induction t)
  case (Node opn cs p)
  show ?case
  proof
  fix s
  show "dedup_spec (Node opn cs p) s"
  proof (cases "opn = ''Select''")
    case False
    from Node have "\<And>c s. c \<in> set cs \<Longrightarrow> dedup_spec c s" by simp
    from dedup_children_preorder [OF this, where seen = s] obtain cs' s2
      where r: "dedup_selections_children cs s = Inr (cs', s2)"
        and q: "\<And>rest. drop_seen (concat (map preorder cs) @ rest) s
                         = concat (map preorder cs') @ drop_seen rest s2"
      by blast
    from False r have "dedup_selections_helper (Node opn cs p) s = Inr (Node opn cs' p, s2)"
      by simp
    moreover have "drop_seen (preorder (Node opn cs p) @ rest) s
        = preorder (Node opn cs' p) @ drop_seen rest s2" for rest
      using False q [of rest] by simp
    ultimately show ?thesis unfolding dedup_spec_def by blast
  next
    case True
    with Node.prems obtain c where cs: "cs = [c]" and u: "selects_unary c"
      by (cases cs) auto
    show ?thesis
    proof (cases "get_pred p \<in> s")
      case old: True
      from Node.IH [of c] cs u have "dedup_spec c s" by simp
      then obtain c' s1
        where h: "dedup_selections_helper c s = Inr (c', s1)"
          and q: "\<And>rest. drop_seen (preorder c @ rest) s = preorder c' @ drop_seen rest s1"
        by (auto simp: dedup_spec_def)
      from True cs old h
      have "dedup_selections_helper (Node opn cs p) s = Inr (c', s1)" by simp
      moreover have "drop_seen (preorder (Node opn cs p) @ rest) s
          = preorder c' @ drop_seen rest s1" for rest
        using True cs old q [of rest] by simp
      ultimately show ?thesis unfolding dedup_spec_def by blast
    next
      case fresh: False
      from Node.IH [of c] cs u have "dedup_spec c (insert (get_pred p) s)" by simp
      then obtain c' s1
        where h: "dedup_selections_helper c (insert (get_pred p) s) = Inr (c', s1)"
          and q: "\<And>rest. drop_seen (preorder c @ rest) (insert (get_pred p) s)
                           = preorder c' @ drop_seen rest s1"
        by (auto simp: dedup_spec_def)
      from True cs fresh h
      have "dedup_selections_helper (Node opn cs p) s = Inr (Node opn [c'] p, s1)" by simp
      moreover have "drop_seen (preorder (Node opn cs p) @ rest) s
          = preorder (Node opn [c'] p) @ drop_seen rest s1" for rest
        using True cs fresh q [of rest] by simp
      ultimately show ?thesis unfolding dedup_spec_def by blast
    qed
  qed
  qed
qed

lemma dedup_helper_preorder: "selects_unary t \<Longrightarrow> dedup_spec t s"
  by (simp add: dedup_helper_preorder_all)

text \<open>
  C7: dedup_selections is idempotent: a second run returns what the first run returned
  (and raises what the first run raised). When every Select has its one child, the run
  succeeds and the result has the nodes of the input in the same pre-order, without the
  Select nodes whose predicate text an earlier Select in pre-order carries: the first
  occurrence of a text stays in place, each later one is removed and its child takes
  its place.
\<close>

theorem dedup_selections_idempotent:
  "and_then (dedup_selections t) dedup_selections = dedup_selections t
   \<and> (selects_unary t \<longrightarrow>
        (\<exists>t'. dedup_selections t = Inr t' \<and> preorder t' = drop_seen (preorder t) {}))"
proof
  show "and_then (dedup_selections t) dedup_selections = dedup_selections t"
  proof (cases "dedup_selections t")
    case (Inl e)
    then show ?thesis by (simp add: and_then_def)
  next
    case (Inr t')
    then show ?thesis by (simp add: and_then_def dedup_selections_fixpoint)
  qed
next
  show "selects_unary t \<longrightarrow>
        (\<exists>t'. dedup_selections t = Inr t' \<and> preorder t' = drop_seen (preorder t) {})"
  proof
    assume "selects_unary t"
    then have "dedup_spec t {}" by (rule dedup_helper_preorder)
    then obtain t' s' where h: "dedup_selections_helper t {} = Inr (t', s')"
      and q: "\<And>rest. drop_seen (preorder t @ rest) {} = preorder t' @ drop_seen rest s'"
      unfolding dedup_spec_def by blast
    from h have "dedup_selections t = Inr t'" by (simp add: dedup_selections_def)
    moreover from q [of "[]"] have "preorder t' = drop_seen (preorder t) {}" by simp
    ultimately show "\<exists>t'. dedup_selections t = Inr t' \<and> preorder t' = drop_seen (preorder t) {}"
      by blast
  qed
qed


theorem dedup_selections_idempotent_witness:
  "selects_unary (project [''a.x''] (select ''p'' [] (join ''Cross'' None
       (select ''q'' [] (select ''p'' [] scan_a)) (select ''q'' [] scan_b))))
   \<and> dedup_selections (project [''a.x''] (select ''p'' [] (join ''Cross'' None
       (select ''q'' [] (select ''p'' [] scan_a)) (select ''q'' [] scan_b))))
     = Inr (project [''a.x''] (select ''p'' [] (join ''Cross'' None (select ''q'' [] scan_a) scan_b)))
   \<and> and_then (dedup_selections (project [''a.x''] (select ''p'' [] (join ''Cross'' None
       (select ''q'' [] (select ''p'' [] scan_a)) (select ''q'' [] scan_b))))) dedup_selections
     = Inr (project [''a.x''] (select ''p'' [] (join ''Cross'' None (select ''q'' [] scan_a) scan_b)))
   \<and> preorder (project [''a.x''] (select ''p'' [] (join ''Cross'' None (select ''q'' [] scan_a) scan_b)))
     = drop_seen (preorder (project [''a.x''] (select ''p'' [] (join ''Cross'' None
       (select ''q'' [] (select ''p'' [] scan_a)) (select ''q'' [] scan_b))))) {}"
proof -
  let ?t = "project [''a.x''] (select ''p'' [] (join ''Cross'' None
       (select ''q'' [] (select ''p'' [] scan_a)) (select ''q'' [] scan_b)))"
  let ?r = "project [''a.x''] (select ''p'' [] (join ''Cross'' None (select ''q'' [] scan_a) scan_b))"
  have u: "selects_unary ?t" by code_simp
  have d: "dedup_selections ?t = Inr ?r" by code_simp
  from dedup_selections_idempotent [of ?t] u d show ?thesis by simp
qed


section \<open>reorder_joins: equal scores keep the order\<close>

lemma collect_map_all2:
  "collect (map f xs) = Inr ys \<Longrightarrow> list_all2 (\<lambda>x y. f x = Inr y) xs ys"
proof (induction xs arbitrary: ys)
  case Nil
  then show ?case by simp
next
  case (Cons x xs)
  then show ?case
    by (cases "f x"; cases "collect (map f xs)") auto
qed













section \<open>selection_pushdown: the moves it makes\<close>

text \<open>
  One move of a Select below the Join or Cross that is its first child: to the left side
  when the set \<^verbatim>\<open>involved\<close> is not empty and lies within the aliases of the left side, to
  the right side when it does not lie within those of the left but within those of the
  right side. \<open>inside\<close>: the move may take place anywhere in the tree.
\<close>

inductive push_step :: "node \<Rightarrow> node \<Rightarrow> bool" where
  push_left:
    "opj = ''Cross'' \<or> opj = ''Join'' \<Longrightarrow> aliases l = Inr la \<Longrightarrow> aliases r = Inr ra \<Longrightarrow>
     involved p \<noteq> {} \<Longrightarrow> involved p \<subseteq> la \<Longrightarrow>
     push_step (Node ''Select'' (Node opj [l, r] jp # rest) p)
               (Node opj [Node ''Select'' (l # rest) p, r] jp)"
| push_right:
    "opj = ''Cross'' \<or> opj = ''Join'' \<Longrightarrow> aliases l = Inr la \<Longrightarrow> aliases r = Inr ra \<Longrightarrow>
     involved p \<noteq> {} \<Longrightarrow> \<not> involved p \<subseteq> la \<Longrightarrow> involved p \<subseteq> ra \<Longrightarrow>
     push_step (Node ''Select'' (Node opj [l, r] jp # rest) p)
               (Node opj [l, Node ''Select'' (r # rest) p] jp)"
| inside:
    "push_step c c' \<Longrightarrow> push_step (Node opn (pre @ c # post) q) (Node opn (pre @ c' # post) q)"

lemma pushes_inside:
  "push_step\<^sup>*\<^sup>* c c' \<Longrightarrow>
   push_step\<^sup>*\<^sup>* (Node opn (pre @ c # post) q) (Node opn (pre @ c' # post) q)"
proof (induction rule: rtranclp_induct)
  case base
  then show ?case by simp
next
  case (step y z)
  from step.hyps(2) have "push_step (Node opn (pre @ y # post) q) (Node opn (pre @ z # post) q)"
    by (rule inside)
  with step.IH show ?case by (rule rtranclp.rtrancl_into_rtrancl)
qed

lemma pushes_children:
  "list_all2 (push_step\<^sup>*\<^sup>*) cs cs' \<Longrightarrow>
   push_step\<^sup>*\<^sup>* (Node opn (pre @ cs) q) (Node opn (pre @ cs') q)"
proof (induction arbitrary: pre rule: list_all2_induct)
  case Nil
  then show ?case by simp
next
  case (Cons x xs y ys)
  from Cons.hyps(1)
  have "push_step\<^sup>*\<^sup>* (Node opn (pre @ x # xs) q) (Node opn (pre @ y # xs) q)"
    by (rule pushes_inside)
  moreover from Cons.IH [of "pre @ [y]"]
  have "push_step\<^sup>*\<^sup>* (Node opn (pre @ y # xs) q) (Node opn (pre @ y # ys) q)" by simp
  ultimately show ?case by (rule rtranclp_trans)
qed

lemma list_all2_on_set:
  "list_all2 P xs ys \<Longrightarrow> (\<And>x y. x \<in> set xs \<Longrightarrow> P x y \<Longrightarrow> Q x y) \<Longrightarrow> list_all2 Q xs ys"
  by (induction rule: list_all2_induct) auto

lemma selection_pushdown_helper_pushes:
  "selection_pushdown_helper n = Inr n' \<Longrightarrow> push_step\<^sup>*\<^sup>* n n'"
proof (induction n arbitrary: n' rule: selection_pushdown_helper.induct)
  case (1 opn cs p)
  show ?case
  proof (cases "opn = ''Select''")
    case False
    with "1.prems" obtain cs' where c: "collect (map selection_pushdown_helper cs) = Inr cs'"
      and n': "n' = Node opn cs' p"
      by (auto split: sum.splits)
    from c have "list_all2 (\<lambda>x y. selection_pushdown_helper x = Inr y) cs cs'"
      by (rule collect_map_all2)
    then have "list_all2 (push_step\<^sup>*\<^sup>*) cs cs'"
      using "1.IH"(4) [OF False] by (rule list_all2_on_set)
    from pushes_children [OF this, of opn "[]" p] n' show ?thesis by simp
  next
    case True
    with "1.prems" obtain c rest child where cs: "cs = c # rest"
      and hc: "selection_pushdown_helper c = Inr child"
      by (auto split: list.splits sum.splits)
    have "push_step\<^sup>*\<^sup>* c child"
      using "1.IH"(1) [OF True cs hc] .
    from pushes_inside [OF this, of opn "[]" rest p] cs
    have first: "push_step\<^sup>*\<^sup>* (Node opn cs p) (Node opn (child # rest) p)" by simp
    show ?thesis
    proof (cases "involved p \<noteq> {} \<and> (op child = ''Cross'' \<or> op child = ''Join'')")
      case False
      with "1.prems" True cs hc have "n' = Node opn (child # rest) p"
        by (auto split: if_splits)
      with first show ?thesis by simp
    next
      case push: True
      with "1.prems" True cs hc obtain left right la ra
        where ch: "children child = [left, right]"
          and la: "aliases left = Inr la" and ra: "aliases right = Inr ra"
        by (auto split: list.splits sum.splits)
      from ch have child: "child = Node (op child) [left, right] (props child)"
        by (cases child) simp
      consider (l) "involved p \<subseteq> la"
        | (r) "\<not> involved p \<subseteq> la" "involved p \<subseteq> ra"
        | (s) "\<not> involved p \<subseteq> la" "\<not> involved p \<subseteq> ra"
        by blast
      then show ?thesis
      proof cases
        case l
        with "1.prems" True cs hc push ch la ra obtain m
          where hm: "selection_pushdown_helper (Node opn (left # rest) p) = Inr m"
            and n': "n' = Node (op child) [m, right] (props child)"
          by (auto split: sum.splits)
        have "push_step\<^sup>*\<^sup>* (Node opn (left # rest) p) m"
          using push l hm
          by (intro "1.IH"(2) [OF True cs hc _ _ ch refl refl la ra]) auto
        from pushes_inside [OF this, of "op child" "[]" "[right]" "props child"]
        have last: "push_step\<^sup>*\<^sup>* (Node (op child) [Node opn (left # rest) p, right] (props child)) n'"
          using n' by simp
        have "push_step (Node ''Select'' (Node (op child) [left, right] (props child) # rest) p)
                (Node (op child) [Node ''Select'' (left # rest) p, right] (props child))"
          using push la ra l by (intro push_left) auto
        with child True
        have "push_step (Node opn (child # rest) p)
                (Node (op child) [Node opn (left # rest) p, right] (props child))"
          by simp
        with first last show ?thesis by (meson rtranclp.rtrancl_into_rtrancl rtranclp_trans)
      next
        case r
        with "1.prems" True cs hc push ch la ra obtain m
          where hm: "selection_pushdown_helper (Node opn (right # rest) p) = Inr m"
            and n': "n' = Node (op child) [left, m] (props child)"
          by (auto split: sum.splits)
        have "push_step\<^sup>*\<^sup>* (Node opn (right # rest) p) m"
          using push r hm
          by (intro "1.IH"(3) [OF True cs hc _ _ ch refl refl la ra]) auto
        from pushes_inside [OF this, of "op child" "[left]" "[]" "props child"]
        have last: "push_step\<^sup>*\<^sup>* (Node (op child) [left, Node opn (right # rest) p] (props child)) n'"
          using n' by simp
        have "push_step (Node ''Select'' (Node (op child) [left, right] (props child) # rest) p)
                (Node (op child) [left, Node ''Select'' (right # rest) p] (props child))"
          using push la ra r by (intro push_right) auto
        with child True
        have "push_step (Node opn (child # rest) p)
                (Node (op child) [left, Node opn (right # rest) p] (props child))"
          by simp
        with first last show ?thesis by (meson rtranclp.rtrancl_into_rtrancl rtranclp_trans)
      next
        case s
        with "1.prems" True cs hc push ch la ra have "n' = Node opn (child # rest) p"
          by auto
        with first show ?thesis by simp
      qed
    qed
  qed
qed


text \<open>
  C2 (as amended): selection_pushdown moves a Select below a Join or Cross only when the
  aliases of the dot-qualified entries of its referenced attributes form a non-empty set
  within the aliases of the side it moves to (the left side first). Entries without a
  dot take no part in the test. The tree returned is reached from the input by such
  moves alone, and a Select at the root without any qualified entry stays at the root.
\<close>

theorem selection_pushdown_only_pushes:
  assumes "selection_pushdown t = Inr t'"
  shows "push_step\<^sup>*\<^sup>* t t'
         \<and> (\<forall>c rest p. t = Node ''Select'' (c # rest) p \<and> involved p = {}
               \<longrightarrow> (\<exists>c'. selection_pushdown c = Inr c' \<and> t' = Node ''Select'' (c' # rest) p))"
proof
  from assms show "push_step\<^sup>*\<^sup>* t t'"
    unfolding selection_pushdown_def by (rule selection_pushdown_helper_pushes)
next
  from assms
  show "\<forall>c rest p. t = Node ''Select'' (c # rest) p \<and> involved p = {}
          \<longrightarrow> (\<exists>c'. selection_pushdown c = Inr c' \<and> t' = Node ''Select'' (c' # rest) p)"
    by (auto simp: selection_pushdown_def split: sum.splits)
qed

theorem selection_pushdown_only_pushes_witness:
  "selection_pushdown (select ''a.x > 5'' [''a.x''] (join ''Cross'' None scan_a scan_b))
     = Inr (join ''Cross'' None (select ''a.x > 5'' [''a.x''] scan_a) scan_b)
   \<and> push_step\<^sup>*\<^sup>* (select ''a.x > 5'' [''a.x''] (join ''Cross'' None scan_a scan_b))
        (join ''Cross'' None (select ''a.x > 5'' [''a.x''] scan_a) scan_b)
   \<and> involved (sel_props ''1 = 1'' []) = {}
   \<and> selection_pushdown (select ''1 = 1'' [] (join ''Cross'' None scan_a scan_b))
     = Inr (select ''1 = 1'' [] (join ''Cross'' None scan_a scan_b))"
proof -
  have a: "selection_pushdown (select ''a.x > 5'' [''a.x''] (join ''Cross'' None scan_a scan_b))
     = Inr (join ''Cross'' None (select ''a.x > 5'' [''a.x''] scan_a) scan_b)"
    by code_simp
  have b: "selection_pushdown (select ''1 = 1'' [] (join ''Cross'' None scan_a scan_b))
     = Inr (select ''1 = 1'' [] (join ''Cross'' None scan_a scan_b))"
    by code_simp
  have i: "involved (sel_props ''1 = 1'' []) = {}" by code_simp
  from selection_pushdown_only_pushes [OF a] selection_pushdown_only_pushes [OF b] a b i
  show ?thesis by simp
qed

text \<open>
  C2 as stated fails: the referenced attributes of the Select below include the token
  \<open>y\<close>, which has no dot, and the Select is moved below the Cross, to the side of \<open>a\<close>.
\<close>

theorem selection_pushdown_pushes_unqualified:
  "selection_pushdown (select ''a.x > y'' [''a.x'', ''y''] (join ''Cross'' None scan_a scan_b))
     = Inr (join ''Cross'' None (select ''a.x > y'' [''a.x'', ''y''] scan_a) scan_b)
   \<and> \<not> has_dot ''y''"
  by code_simp


section \<open>The grammar of the trees\<close>

text \<open>
  The arity of each node kind. \<open>arities_ok\<close>: every node has the arity of its kind.
  \<open>well_formed\<close> adds what the passes rely on besides: a Scan has its alias, and the
  child of a Having is a Group.
\<close>

definition arity_table :: "(string \<times> nat) list" where
  "arity_table = [(''Scan'', 0), (''Select'', 1), (''Project'', 1), (''Group'', 1),
     (''Having'', 1), (''Order'', 1), (''Join'', 2), (''Cross'', 2)]"

definition arity :: "string \<Rightarrow> nat option" where
  "arity opn = map_of arity_table opn"

fun arities_ok :: "node \<Rightarrow> bool" where
  "arities_ok (Node opn cs p) = (arity opn = Some (length cs) \<and> (\<forall>c \<in> set cs. arities_ok c))"

fun well_formed :: "node \<Rightarrow> bool" where
  "well_formed (Node opn cs p) =
     (arity opn = Some (length cs)
      \<and> (opn = ''Scan'' \<longrightarrow> alias_p p \<noteq> None)
      \<and> (opn = ''Having'' \<longrightarrow> (\<forall>c \<in> set cs. op c = ''Group''))
      \<and> (\<forall>c \<in> set cs. well_formed c))"

text \<open>
  The number of Project nodes, and the place of the Project of a canonical tree: at the
  root, or directly below an Order at the root.
\<close>

fun nproj :: "node \<Rightarrow> nat" where
  "nproj (Node opn cs p) = (if opn = ''Project'' then 1 else 0) + sum_list (map nproj cs)"

definition project_on_top :: "node \<Rightarrow> bool" where
  "project_on_top t =
     (if op t = ''Order'' then (case children t of [c] \<Rightarrow> op c = ''Project'' | _ \<Rightarrow> False)
      else op t = ''Project'')"

text \<open>
  What a pass keeps of a tree: the result is well formed, a root that is a Group, a
  Project or an Order stays one, and so does the Project on top. \<open>kept\<close> adds that the
  number of Project nodes is the same.
\<close>

definition stable_op :: "string \<Rightarrow> bool" where
  "stable_op opn = (opn = ''Group'' \<or> opn = ''Project'' \<or> opn = ''Order'')"

definition kept_shape :: "node \<Rightarrow> node \<Rightarrow> bool" where
  "kept_shape t t' =
     (well_formed t' \<and> (stable_op (op t) \<longrightarrow> op t' = op t)
      \<and> (project_on_top t \<longrightarrow> project_on_top t'))"

definition kept :: "node \<Rightarrow> node \<Rightarrow> bool" where
  "kept t t' = (kept_shape t t' \<and> nproj t' = nproj t)"

lemma well_formed_arities_ok: "well_formed t \<Longrightarrow> arities_ok t"
  by (induction t) auto

lemma arity_simps:
  "arity ''Scan'' = Some 0" "arity ''Select'' = Some 1" "arity ''Project'' = Some 1"
  "arity ''Group'' = Some 1" "arity ''Having'' = Some 1" "arity ''Order'' = Some 1"
  "arity ''Join'' = Some 2" "arity ''Cross'' = Some 2"
  by (simp_all add: arity_def arity_table_def)

lemma arity_cases:
  assumes "arity opn = Some n"
  obtains (scan) "opn = ''Scan''" "n = 0"
    | (unary) "opn = ''Select'' \<or> opn = ''Project'' \<or> opn = ''Group'' \<or> opn = ''Order''" "n = 1"
    | (having) "opn = ''Having''" "n = 1"
    | (binary) "opn = ''Join'' \<or> opn = ''Cross''" "n = 2"
proof -
  from assms have "(opn, n) \<in> set arity_table"
    unfolding arity_def by (rule map_of_SomeD)
  then have "(opn = ''Scan'' \<and> n = 0) \<or> (opn = ''Select'' \<and> n = 1) \<or> (opn = ''Project'' \<and> n = 1)
     \<or> (opn = ''Group'' \<and> n = 1) \<or> (opn = ''Having'' \<and> n = 1) \<or> (opn = ''Order'' \<and> n = 1)
     \<or> (opn = ''Join'' \<and> n = 2) \<or> (opn = ''Cross'' \<and> n = 2)"
    unfolding arity_table_def by (simp only: set_simps insert_iff empty_iff prod.inject simp_thms)
  then show ?thesis
  proof (elim disjE conjE)
    assume "opn = ''Scan''" "n = 0" then show ?thesis by (rule scan)
  next
    assume "opn = ''Select''" "n = 1" then show ?thesis by (intro unary disjI1)
  next
    assume "opn = ''Project''" "n = 1" then show ?thesis by (intro unary disjI2 disjI1)
  next
    assume "opn = ''Group''" "n = 1" then show ?thesis by (intro unary) (rule disjI2, rule disjI2, rule disjI1)
  next
    assume "opn = ''Having''" "n = 1" then show ?thesis by (rule having)
  next
    assume "opn = ''Order''" "n = 1" then show ?thesis by (intro unary) (rule disjI2, rule disjI2, rule disjI2)
  next
    assume "opn = ''Join''" "n = 2" then show ?thesis by (intro binary disjI1)
  next
    assume "opn = ''Cross''" "n = 2" then show ?thesis by (intro binary disjI2)
  qed
qed


lemma well_formed_cases:
  assumes "well_formed (Node opn cs p)"
  obtains (scan) "opn = ''Scan''" "cs = []" "alias_p p \<noteq> None"
    | (unary) c where "opn = ''Select'' \<or> opn = ''Project'' \<or> opn = ''Group'' \<or> opn = ''Order''"
        "cs = [c]" "well_formed c"
    | (having) c where "opn = ''Having''" "cs = [c]" "well_formed c" "op c = ''Group''"
    | (binary) l r where "opn = ''Join'' \<or> opn = ''Cross''" "cs = [l, r]"
        "well_formed l" "well_formed r"
proof -
  from assms have a: "arity opn = Some (length cs)" by simp
  from assms have al: "opn = ''Scan'' \<longrightarrow> alias_p p \<noteq> None"
    and hv: "opn = ''Having'' \<longrightarrow> (\<forall>c \<in> set cs. op c = ''Group'')"
    and ch: "\<forall>c \<in> set cs. well_formed c" by simp_all
  from a show ?thesis
  proof (cases rule: arity_cases)
    case scan
    then have "cs = []" by simp
    moreover from al scan have "alias_p p \<noteq> None" by blast
    ultimately show ?thesis using scan(1) by (intro that(1))
  next
    case unary
    then obtain c where c: "cs = [c]" by (cases cs) auto
    with ch have "well_formed c" by simp
    with unary(1) c show ?thesis by (intro that(2) [of c])
  next
    case having
    then obtain c where c: "cs = [c]" by (cases cs) auto
    with ch have w: "well_formed c" by simp
    from hv having(1) c have "op c = ''Group''" by simp
    with having(1) c w show ?thesis by (intro that(3) [of c])
  next
    case binary
    then obtain l r where c: "cs = [l, r]"
      by (cases cs; cases "tl cs") auto
    with ch have "well_formed l" "well_formed r" by simp_all
    with binary(1) c show ?thesis by (intro that(4) [of l r])
  qed
qed

lemma well_formed_unary:
  assumes "well_formed (Node opn cs p)" and "arity opn = Some 1"
  obtains c where "cs = [c]" "well_formed c"
proof -
  from assms have "length cs = 1" by simp
  then obtain c where c: "cs = [c]" by (cases cs) auto
  with assms(1) have "well_formed c" by simp
  with c that show ?thesis by blast
qed

lemma well_formed_binary:
  assumes "well_formed (Node opn cs p)" and "arity opn = Some 2"
  obtains l r where "cs = [l, r]" "well_formed l" "well_formed r"
proof -
  from assms have "length cs = 2" by simp
  then obtain l r where c: "cs = [l, r]" by (cases cs; cases "tl cs") auto
  with assms(1) have "well_formed l" "well_formed r" by simp_all
  with c that show ?thesis by blast
qed

lemma stable_op_simps:
  "stable_op ''Group''" "stable_op ''Project''" "stable_op ''Order''"
  "\<not> stable_op ''Select''" "\<not> stable_op ''Having''" "\<not> stable_op ''Scan''"
  "\<not> stable_op ''Join''" "\<not> stable_op ''Cross''"
  by (simp_all add: stable_op_def)

lemma kept_shape_refl: "well_formed t \<Longrightarrow> kept_shape t t"
  by (simp add: kept_shape_def)

lemma kept_refl: "well_formed t \<Longrightarrow> kept t t"
  by (simp add: kept_def kept_shape_refl)

lemma kept_shape_node1:
  assumes wf: "well_formed (Node opn [c] p)" and k: "kept_shape c c'"
  shows "kept_shape (Node opn [c] p) (Node opn [c'] p)"
proof -
  from k have wc: "well_formed c'" and st: "stable_op (op c) \<longrightarrow> op c' = op c"
    by (simp_all add: kept_shape_def)
  have g: "op c = ''Group'' \<Longrightarrow> op c' = ''Group''"
    using st by (simp add: stable_op_def)
  have pr: "op c = ''Project'' \<Longrightarrow> op c' = ''Project''"
    using st by (simp add: stable_op_def)
  from wf wc g have "well_formed (Node opn [c'] p)" by simp
  moreover have "project_on_top (Node opn [c] p) \<longrightarrow> project_on_top (Node opn [c'] p)"
    using pr by (simp add: project_on_top_def)
  ultimately show ?thesis by (simp add: kept_shape_def)
qed

lemma kept_shape_node2:
  assumes wf: "well_formed (Node opn [l, r] p)" and "kept_shape l l'" and "kept_shape r r'"
  shows "kept_shape (Node opn [l, r] p) (Node opn [l', r'] p)"
proof -
  from assms(2,3) have wc: "well_formed l'" "well_formed r'"
    by (simp_all add: kept_shape_def)
  from wf have a: "arity opn = Some 2" by simp
  then have no: "opn \<noteq> ''Having''" "opn \<noteq> ''Order''"
    by (auto simp: arity_simps)
  from wf wc no(1) have "well_formed (Node opn [l', r'] p)" by simp
  moreover from no(2) have "project_on_top (Node opn [l, r] p) \<longrightarrow> project_on_top (Node opn [l', r'] p)"
    by (simp add: project_on_top_def)
  ultimately show ?thesis by (simp add: kept_shape_def)
qed

lemma kept_node1:
  assumes "well_formed (Node opn [c] p)" and "kept c c'"
  shows "kept (Node opn [c] p) (Node opn [c'] p)"
  using assms kept_shape_node1 [of opn c p c'] by (simp add: kept_def)

lemma kept_node2:
  assumes "well_formed (Node opn [l, r] p)" and "kept l l'" and "kept r r'"
  shows "kept (Node opn [l, r] p) (Node opn [l', r'] p)"
  using assms kept_shape_node2 [of opn l r p l' r'] by (simp add: kept_def)

text \<open>A Select at the root that is replaced by a well-formed tree with as many Projects.\<close>

lemma kept_select:
  assumes "well_formed t'" and "nproj t' = nproj (Node ''Select'' cs p)"
  shows "kept (Node ''Select'' cs p) t'"
  using assms by (simp add: kept_def kept_shape_def stable_op_simps project_on_top_def)

lemma kept_having:
  assumes "well_formed t'" and "nproj t' = nproj (Node ''Having'' cs p)"
  shows "kept (Node ''Having'' cs p) t'"
  using assms by (simp add: kept_def kept_shape_def stable_op_simps project_on_top_def)

lemma arity2_not:
  assumes "arity opn = Some 2"
  shows "opn \<noteq> ''Project''" "opn \<noteq> ''Order''" "opn \<noteq> ''Having''" "opn \<noteq> ''Group''"
    "opn \<noteq> ''Scan''" "opn \<noteq> ''Select''"
  using assms by (auto simp: arity_simps)

lemma kept_binary:
  assumes "arity opn = Some 2" and "well_formed t'" and "nproj t' = nproj (Node opn cs p)"
  shows "kept (Node opn cs p) t'"
  using assms arity2_not [OF assms(1)]
  by (simp add: kept_def kept_shape_def stable_op_def project_on_top_def)

lemma well_formed_binary_replace:
  assumes "well_formed (Node opn [l, r] p)" and "well_formed l'" and "well_formed r'"
  shows "well_formed (Node opn [l', r'] p)"
proof -
  from assms(1) have "arity opn = Some 2" by simp
  then have "opn \<noteq> ''Having''" by (rule arity2_not)
  with assms show ?thesis by simp
qed

lemma select_chain_kept:
  assumes "well_formed c" and "parts \<noteq> []"
  shows "well_formed (select_chain parts as c) \<and> nproj (select_chain parts as c) = nproj c"
  using assms
proof (induction parts)
  case Nil
  then show ?case by simp
next
  case (Cons q qs)
  show ?case
  proof (cases "qs = []")
    case True
    with Cons.prems show ?thesis
      by (simp add: select_chain_Cons select_chain_Nil arity_simps)
  next
    case False
    with Cons have "well_formed (select_chain qs as c) \<and> nproj (select_chain qs as c) = nproj c"
      by simp
    then show ?thesis
      by (simp add: select_chain_Cons arity_simps)
  qed
qed

text \<open>The generic branch of a pass: the children are rewritten, the node is kept.\<close>

lemma generic_kept:
  assumes wf: "well_formed (Node opn cs p)"
    and ih: "\<And>c. c \<in> set cs \<Longrightarrow> well_formed c \<Longrightarrow> \<exists>c'. f c = Inr c' \<and> kept c c'"
  shows "\<exists>cs'. collect (map f cs) = Inr cs' \<and> kept (Node opn cs p) (Node opn cs' p)"
  using wf
proof (cases rule: well_formed_cases)
  case scan
  with wf show ?thesis by (simp add: kept_refl)
next
  case (unary c)
  from ih [of c] unary obtain c' where "f c = Inr c'" "kept c c'" by auto
  with wf unary(2) show ?thesis by (simp add: kept_node1)
next
  case (having c)
  from ih [of c] having obtain c' where "f c = Inr c'" "kept c c'" by auto
  with wf having(2) show ?thesis by (simp add: kept_node1)
next
  case (binary l r)
  from ih [of l] binary obtain l' where "f l = Inr l'" "kept l l'" by auto
  moreover from ih [of r] binary obtain r' where "f r = Inr r'" "kept r r'" by auto
  ultimately show ?thesis using wf binary(2) by (simp add: kept_node2)
qed

section \<open>The passes return and keep the grammar\<close>

lemma breakup_conjuncts_helper_kept:
  "well_formed t \<Longrightarrow> \<exists>t'. breakup_conjuncts_helper t = Inr t' \<and> kept t t'"
proof (induction t)
  case (Node opn cs p)
  note wf = Node.prems
  show ?case
  proof (cases "opn = ''Select'' \<and> py_in '' AND '' (get_pred p)")
    case True
    then have sel: "opn = ''Select''" by (rule conjunct1)
    from wf obtain c where cs: "cs = [c]" and wc: "well_formed c"
      unfolding sel by (rule well_formed_unary) (rule arity_simps)
    let ?r = "select_chain (re_split_and [] (get_pred p)) (get_list (pred_attrs p)) c"
    have r: "breakup_conjuncts_helper (Node opn cs p) = Inr ?r"
      by (simp only: breakup_conjuncts_helper.simps if_P [OF True] cs list.case)
    have "re_split_and [] (get_pred p) \<noteq> []" by (rule re_split_and_nonempty)
    with wc have "well_formed ?r \<and> nproj ?r = nproj c" by (rule select_chain_kept)
    then have "kept (Node ''Select'' cs p) ?r"
      unfolding cs by (intro kept_select) simp_all
    with r sel show ?thesis by blast
  next
    case False
    have "\<exists>cs'. collect (map breakup_conjuncts_helper cs) = Inr cs'
            \<and> kept (Node opn cs p) (Node opn cs' p)"
      using wf Node.IH by (rule generic_kept)
    then obtain cs' where c: "collect (map breakup_conjuncts_helper cs) = Inr cs'"
      and k: "kept (Node opn cs p) (Node opn cs' p)" by blast
    have "breakup_conjuncts_helper (Node opn cs p) = Inr (Node opn cs' p)"
      by (simp only: breakup_conjuncts_helper.simps if_not_P [OF False] c sum.case)
    with k show ?thesis by blast
  qed
qed

lemma joinize_helper_kept:
  "well_formed t \<Longrightarrow> \<exists>t'. joinize_helper t = Inr t' \<and> kept t t'"
proof (induction t)
  case (Node opn cs p)
  note wf = Node.prems
  have "\<exists>cs'. collect (map joinize_helper cs) = Inr cs' \<and> kept (Node opn cs p) (Node opn cs' p)"
    using wf Node.IH by (rule generic_kept)
  then obtain cs' where c: "collect (map joinize_helper cs) = Inr cs'"
    and k: "kept (Node opn cs p) (Node opn cs' p)" by blast
  show ?case
  proof (cases "opn = ''Select''")
    case False
    have "joinize_helper (Node opn cs p) = Inr (Node opn cs' p)"
      by (simp only: joinize_helper.simps c sum.case if_not_P [OF False])
    with k show ?thesis by blast
  next
    case True
    from k have wf': "well_formed (Node ''Select'' cs' p)"
      and np: "nproj (Node ''Select'' cs' p) = nproj (Node ''Select'' cs p)"
      unfolding True by (simp_all add: kept_def kept_shape_def)
    from wf' obtain c' where cs': "cs' = [c']" and wc: "well_formed c'"
      by (rule well_formed_unary) (rule arity_simps)
    show ?thesis
    proof (cases "op c' = ''Cross'' \<and> match_equality (get_pred p) \<noteq> None")
      case False
      have "joinize_helper (Node opn cs p) = Inr (Node opn cs' p)"
        using False by (auto simp: c cs' True split: option.splits)
      with k show ?thesis by blast
    next
      case cross: True
      then obtain l r where m: "match_equality (get_pred p) = Some (l, r)" by auto
      from cross have oc: "op c' = ''Cross''" by (rule conjunct1)
      obtain ccs cp where c': "c' = Node ''Cross'' ccs cp"
        using oc by (cases c') simp
      from wc obtain lft rgt where ccs: "ccs = [lft, rgt]"
        and wl: "well_formed lft" and wr: "well_formed rgt"
        unfolding c' by (rule well_formed_binary) (rule arity_simps)
      let ?r = "Node ''Join'' [lft, rgt]
                 (join_props (Some (get_pred p)) [dotted l] [dotted r])"
      have r: "joinize_helper (Node opn cs p) = Inr ?r"
        by (simp add: c cs' True c' ccs m)
      from wl wr have "well_formed ?r" by (simp add: arity_simps)
      moreover from np have "nproj ?r = nproj (Node ''Select'' cs p)"
        by (simp add: cs' c' ccs)
      ultimately have "kept (Node ''Select'' cs p) ?r" by (rule kept_select)
      with r True show ?thesis by blast
    qed
  qed
qed

lemma having_to_where_helper_kept:
  "well_formed t \<Longrightarrow> \<exists>t'. having_to_where_helper t = Inr t' \<and> kept t t'"
proof (induction t)
  case (Node opn cs p)
  note wf = Node.prems
  show ?case
  proof (cases "opn = ''Having''")
    case False
    have "\<exists>cs'. collect (map having_to_where_helper cs) = Inr cs'
            \<and> kept (Node opn cs p) (Node opn cs' p)"
      using wf Node.IH by (rule generic_kept)
    then obtain cs' where c: "collect (map having_to_where_helper cs) = Inr cs'"
      and k: "kept (Node opn cs p) (Node opn cs' p)" by blast
    have "having_to_where_helper (Node opn cs p) = Inr (Node opn cs' p)"
      by (simp only: having_to_where_helper.simps c sum.case if_not_P [OF False])
    with k show ?thesis by blast
  next
    case True
    from wf obtain g where cs: "cs = [g]" and wg: "well_formed g"
      unfolding True by (rule well_formed_unary) (rule arity_simps)
    from wf True cs have og: "op g = ''Group''" by simp
    from Node.IH [of g] cs wg obtain g' where hg: "having_to_where_helper g = Inr g'"
      and kg: "kept g g'" by auto
    from kg og have wg': "well_formed g'" and og': "op g' = ''Group''"
      and ng: "nproj g' = nproj g"
      by (simp_all add: kept_def kept_shape_def stable_op_simps)
    show ?thesis
    proof (cases "has_agg_call (get_pred p)")
      case agg: True
      have "having_to_where_helper (Node opn cs p) = Inr (Node opn [g'] p)"
        by (simp add: True agg cs hg)
      moreover from wf kg have "kept (Node opn cs p) (Node opn [g'] p)"
        unfolding cs by (rule kept_node1)
      ultimately show ?thesis by blast
    next
      case noagg: False
      obtain gcs gp where g': "g' = Node ''Group'' gcs gp"
        using og' by (cases g') simp
      from wg' obtain gc where gcs: "gcs = [gc]" and wgc: "well_formed gc"
        unfolding g' by (rule well_formed_unary) (rule arity_simps)
      let ?r = "Node ''Group'' [Node ''Select'' [gc] p] gp"
      have r: "having_to_where_helper (Node opn cs p) = Inr ?r"
        by (simp add: True noagg cs hg g' gcs)
      from wgc have "well_formed ?r" by (simp add: arity_simps)
      moreover from ng have "nproj ?r = nproj (Node ''Having'' cs p)"
        by (simp add: cs g' gcs)
      ultimately have "kept (Node ''Having'' cs p) ?r" by (rule kept_having)
      with r True show ?thesis by blast
    qed
  qed
qed

lemma dedup_children_kept:
  assumes wf: "well_formed (Node opn cs p)"
    and ih: "\<And>c s. c \<in> set cs \<Longrightarrow> well_formed c
               \<Longrightarrow> \<exists>c' s'. dedup_selections_helper c s = Inr (c', s') \<and> kept c c'"
  shows "\<exists>cs' s'. dedup_selections_children cs s = Inr (cs', s')
           \<and> kept (Node opn cs p) (Node opn cs' p)"
  using wf
proof (cases rule: well_formed_cases)
  case scan
  with wf show ?thesis by (simp add: kept_refl)
next
  case (unary c)
  from ih [of c s] unary obtain c' s' where "dedup_selections_helper c s = Inr (c', s')"
    "kept c c'" by auto
  with wf unary(2) show ?thesis by (simp add: kept_node1)
next
  case (having c)
  from ih [of c s] having obtain c' s' where "dedup_selections_helper c s = Inr (c', s')"
    "kept c c'" by auto
  with wf having(2) show ?thesis by (simp add: kept_node1)
next
  case (binary l r)
  from ih [of l s] binary obtain l' s1 where "dedup_selections_helper l s = Inr (l', s1)"
    "kept l l'" by auto
  moreover from ih [of r s1] binary obtain r' s2
    where "dedup_selections_helper r s1 = Inr (r', s2)" "kept r r'" by auto
  ultimately show ?thesis using wf binary(2) by (simp add: kept_node2)
qed

lemma dedup_selections_helper_kept_all:
  "well_formed t \<Longrightarrow> \<forall>s. \<exists>t' s'. dedup_selections_helper t s = Inr (t', s') \<and> kept t t'"
proof (induction t)
  case (Node opn cs p)
  note wf = Node.prems
  have ih: "\<exists>c' s'. dedup_selections_helper c s = Inr (c', s') \<and> kept c c'"
    if "c \<in> set cs" "well_formed c" for c s
    using Node.IH [OF that] by blast
  show ?case
  proof
    fix s
    show "\<exists>t' s'. dedup_selections_helper (Node opn cs p) s = Inr (t', s')
            \<and> kept (Node opn cs p) t'"
    proof (cases "opn = ''Select''")
      case False
      from dedup_children_kept [OF wf ih, of s] obtain cs' s'
        where c: "dedup_selections_children cs s = Inr (cs', s')"
          and k: "kept (Node opn cs p) (Node opn cs' p)" by blast
      have "dedup_selections_helper (Node opn cs p) s = Inr (Node opn cs' p, s')"
        by (simp add: False c)
      with k show ?thesis by blast
    next
      case True
      from wf obtain c where cs: "cs = [c]" and wc: "well_formed c"
        unfolding True by (rule well_formed_unary) (rule arity_simps)
      show ?thesis
      proof (cases "get_pred p \<in> s")
        case old: True
        from ih [of c s] cs wc obtain c' s' where h: "dedup_selections_helper c s = Inr (c', s')"
          and k: "kept c c'" by auto
        have "dedup_selections_helper (Node opn cs p) s = Inr (c', s')"
          by (simp add: True old cs h)
        moreover from k have "kept (Node ''Select'' cs p) c'"
          by (intro kept_select) (simp_all add: kept_def kept_shape_def cs)
        ultimately show ?thesis using True by blast
      next
        case fresh: False
        from ih [of c "insert (get_pred p) s"] cs wc obtain c' s'
          where h: "dedup_selections_helper c (insert (get_pred p) s) = Inr (c', s')"
            and k: "kept c c'" by auto
        have "dedup_selections_helper (Node opn cs p) s = Inr (Node opn [c'] p, s')"
          by (simp add: True fresh cs h)
        moreover from wf k have "kept (Node opn cs p) (Node opn [c'] p)"
          unfolding cs by (rule kept_node1)
        ultimately show ?thesis by blast
      qed
    qed
  qed
qed

lemma collect_map_total:
  "(\<And>x. x \<in> set xs \<Longrightarrow> \<exists>y. f x = Inr y \<and> Q x y)
   \<Longrightarrow> \<exists>ys. collect (map f xs) = Inr ys \<and> list_all2 Q xs ys"
proof (induction xs)
  case Nil
  then show ?case by simp
next
  case (Cons x xs)
  from Cons.prems [of x] obtain y where y: "f x = Inr y" "Q x y" by auto
  from Cons.IH Cons.prems obtain ys where "collect (map f xs) = Inr ys" "list_all2 Q xs ys"
    by auto
  with y show ?case by simp
qed

lemma well_formed_children: "well_formed (Node opn cs p) \<Longrightarrow> c \<in> set cs \<Longrightarrow> well_formed c"
  by simp

lemma aliases_total: "well_formed t \<Longrightarrow> \<exists>s. aliases t = Inr s"
proof (induction t)
  case (Node opn cs p)
  show ?case
  proof (cases "opn = ''Scan''")
    case True
    with Node.prems obtain a where "alias_p p = Some a" by auto
    with True show ?thesis by simp
  next
    case False
    have "\<exists>ys. collect (map aliases cs) = Inr ys \<and> list_all2 (\<lambda>x y. True) cs ys"
      using Node.IH well_formed_children [OF Node.prems]
      by (intro collect_map_total) auto
    then obtain ys where "collect (map aliases cs) = Inr ys" by blast
    then show ?thesis by (simp add: False)
  qed
qed

lemma selection_pushdown_helper_kept:
  "well_formed n \<Longrightarrow> \<exists>n'. selection_pushdown_helper n = Inr n' \<and> kept n n'"
proof (induction n rule: selection_pushdown_helper.induct)
  case (1 opn cs p)
  note wf = "1.prems"
  show ?case
  proof (cases "opn = ''Select''")
    case False
    have "\<exists>cs'. collect (map selection_pushdown_helper cs) = Inr cs'
            \<and> kept (Node opn cs p) (Node opn cs' p)"
      using wf "1.IH"(4) [OF False] by (rule generic_kept)
    then obtain cs' where c: "collect (map selection_pushdown_helper cs) = Inr cs'"
      and k: "kept (Node opn cs p) (Node opn cs' p)" by blast
    have "selection_pushdown_helper (Node opn cs p) = Inr (Node opn cs' p)"
      by (simp add: False c)
    with k show ?thesis by blast
  next
    case True
    from wf obtain c where cs: "cs = [c]" and wc: "well_formed c"
      unfolding True by (rule well_formed_unary) (rule arity_simps)
    from "1.IH"(1) [OF True cs wc] obtain child
      where hc: "selection_pushdown_helper c = Inr child" and kc: "kept c child" by blast
    from kc have wch: "well_formed child" and nch: "nproj child = nproj c"
      by (simp_all add: kept_def kept_shape_def)
    have stay: "kept (Node opn cs p) (Node opn [child] p)"
      using wf kc unfolding cs by (rule kept_node1)
    show ?thesis
    proof (cases "involved p \<noteq> {} \<and> (op child = ''Cross'' \<or> op child = ''Join'')")
      case False
      have "selection_pushdown_helper (Node opn cs p) = Inr (Node opn [child] p)"
        using False by (auto simp: True cs hc)
      with stay show ?thesis by blast
    next
      case push: True
      then have a2: "arity (op child) = Some 2" by (auto simp: arity_simps)
      obtain ccs where child: "child = Node (op child) ccs (props child)"
        by (cases child) simp
      from wch obtain left right where ccs: "ccs = [left, right]"
        and wl: "well_formed left" and wr: "well_formed right"
        by (subst (asm) child) (erule well_formed_binary, rule a2)
      from ccs child have ch: "children child = [left, right]"
        by (cases child) simp
      from wch child ccs have wchild: "well_formed (Node (op child) [left, right] (props child))"
        by simp
      from nch child ccs arity2_not(1) [OF a2]
      have nsum: "nproj left + nproj right = nproj c"
        by (cases child) simp
      from aliases_total [OF wl] obtain la where la: "aliases left = Inr la" by blast
      from aliases_total [OF wr] obtain ra where ra: "aliases right = Inr ra" by blast
      consider (l) "involved p \<subseteq> la"
        | (r) "\<not> involved p \<subseteq> la" "involved p \<subseteq> ra"
        | (s) "\<not> involved p \<subseteq> la" "\<not> involved p \<subseteq> ra"
        by blast
      then show ?thesis
      proof cases
        case l
        from wl have wsel: "well_formed (Node opn [left] p)"
          by (simp add: True arity_simps)
        have "\<exists>m. selection_pushdown_helper (Node opn [left] p) = Inr m
                \<and> kept (Node opn [left] p) m"
          using push l wsel
          by (intro "1.IH"(2) [OF True cs hc _ _ ch refl refl la ra]) auto
        then obtain m where hm: "selection_pushdown_helper (Node opn [left] p) = Inr m"
          and km: "kept (Node opn [left] p) m" by auto
        from km have wm: "well_formed m" and nm: "nproj m = nproj left"
          by (simp_all add: kept_def kept_shape_def True)
        let ?r = "Node (op child) [m, right] (props child)"
        have r: "selection_pushdown_helper (Node opn cs p) = Inr ?r"
          using push l
          by (subst selection_pushdown_helper.simps)
             (auto simp del: selection_pushdown_helper.simps simp add: True cs hc ch la ra hm [unfolded True])
        from wchild wm wr have "well_formed ?r" by (rule well_formed_binary_replace)
        moreover from nm nsum arity2_not(1) [OF a2]
        have "nproj ?r = nproj (Node ''Select'' cs p)" by (simp add: cs)
        ultimately have "kept (Node ''Select'' cs p) ?r" by (rule kept_select)
        with r True show ?thesis by blast
      next
        case r
        from wr have wsel: "well_formed (Node opn [right] p)"
          by (simp add: True arity_simps)
        have "\<exists>m. selection_pushdown_helper (Node opn [right] p) = Inr m
                \<and> kept (Node opn [right] p) m"
          using push r wsel
          by (intro "1.IH"(3) [OF True cs hc _ _ ch refl refl la ra]) auto
        then obtain m where hm: "selection_pushdown_helper (Node opn [right] p) = Inr m"
          and km: "kept (Node opn [right] p) m" by auto
        from km have wm: "well_formed m" and nm: "nproj m = nproj right"
          by (simp_all add: kept_def kept_shape_def True)
        let ?r = "Node (op child) [left, m] (props child)"
        have res: "selection_pushdown_helper (Node opn cs p) = Inr ?r"
          using push r
          by (subst selection_pushdown_helper.simps)
             (auto simp del: selection_pushdown_helper.simps simp add: True cs hc ch la ra hm [unfolded True])
        from wchild wl wm have "well_formed ?r" by (rule well_formed_binary_replace)
        moreover from nm nsum arity2_not(1) [OF a2]
        have "nproj ?r = nproj (Node ''Select'' cs p)" by (simp add: cs)
        ultimately have "kept (Node ''Select'' cs p) ?r" by (rule kept_select)
        with res True show ?thesis by blast
      next
        case s
        have "selection_pushdown_helper (Node opn cs p) = Inr (Node opn [child] p)"
          using push s
          by (subst selection_pushdown_helper.simps)
             (auto simp del: selection_pushdown_helper.simps simp add: True cs hc ch la ra)
        with stay show ?thesis by blast
      qed
    qed
  qed
qed

lemma collect_factors_well_formed:
  "well_formed n \<Longrightarrow> \<exists>fs. collect_factors n = Inr fs \<and> fs \<noteq> []
     \<and> (\<forall>f \<in> set fs. well_formed f) \<and> sum_list (map nproj fs) = nproj n"
proof (induction n)
  case (Node opn cs p)
  note wf = Node.prems
  show ?case
  proof (cases "opn = ''Join'' \<or> opn = ''Cross''")
    case False
    have "collect_factors (Node opn cs p) = Inr [Node opn cs p]"
      by (simp only: collect_factors.simps if_not_P [OF False])
    with wf show ?thesis by simp
  next
    case True
    then have a2: "arity opn = Some 2" by (auto simp: arity_simps)
    from wf a2 obtain l r where cs: "cs = [l, r]" and wl: "well_formed l" and wr: "well_formed r"
      by (rule well_formed_binary)
    from Node.IH [of l] cs wl obtain fl where fl: "collect_factors l = Inr fl" "fl \<noteq> []"
      "\<forall>f \<in> set fl. well_formed f" "sum_list (map nproj fl) = nproj l" by auto
    from Node.IH [of r] cs wr obtain fr where fr: "collect_factors r = Inr fr"
      "\<forall>f \<in> set fr. well_formed f" "sum_list (map nproj fr) = nproj r" by auto
    have "collect_factors (Node opn cs p) = Inr (fl @ fr)"
      by (simp only: collect_factors.simps if_P [OF True] cs list.case fl(1) fr(1) sum.case)
    moreover from fl fr arity2_not(1) [OF a2]
    have "sum_list (map nproj (fl @ fr)) = nproj (Node opn cs p)" by (simp add: cs)
    ultimately show ?thesis using fl fr by auto
  qed
qed

lemma count_selections_total: "well_formed t \<Longrightarrow> \<exists>k. count_selections t = Inr k"
proof (induction t)
  case (Node opn cs p)
  note wf = Node.prems
  show ?case
  proof (cases "opn = ''Select''")
    case True
    from wf obtain c where cs: "cs = [c]" and wc: "well_formed c"
      unfolding True by (rule well_formed_unary) (rule arity_simps)
    from Node.IH [of c] cs wc obtain k where "count_selections c = Inr k" by auto
    then show ?thesis by (simp add: True cs)
  next
    case False
    have "\<exists>ys. collect (map count_selections cs) = Inr ys \<and> list_all2 (\<lambda>x y. True) cs ys"
      using Node.IH well_formed_children [OF wf]
      by (intro collect_map_total) auto
    then obtain ys where "collect (map count_selections cs) = Inr ys" by blast
    then show ?thesis by (simp add: False)
  qed
qed

lemma sum_list_insort_key:
  "sum_list (map h (insort_key g x xs)) = (h x :: nat) + sum_list (map h xs)"
  by (induction xs) auto

lemma sum_list_sort_key:
  "sum_list (map h (sort_key g xs)) = (sum_list (map h xs) :: nat)"
  by (induction xs) (auto simp: sum_list_insort_key)

lemma sort_factors_total:
  assumes "\<forall>f \<in> set fs. well_formed f"
  shows "\<exists>rs. sort_factors fs = Inr rs \<and> set rs = set fs
           \<and> sum_list (map nproj rs) = sum_list (map nproj fs)"
proof -
  have "\<exists>ks. collect (map count_selections fs) = Inr ks \<and> list_all2 (\<lambda>x y. True) fs ks"
    using assms count_selections_total by (intro collect_map_total) auto
  then obtain ks where ks: "collect (map count_selections fs) = Inr ks"
    and len: "length ks = length fs"
    by (auto dest: list_all2_lengthD)
  let ?rs = "map snd (sort_key (\<lambda>kf. - int (fst kf)) (zip ks fs))"
  from ks have "sort_factors fs = Inr ?rs" by (simp add: sort_factors_def)
  moreover have "set ?rs = set fs"
  proof -
    have "set ?rs = set (map snd (zip ks fs))" by simp
    also from len have "map snd (zip ks fs) = fs" by (rule map_snd_zip)
    finally show ?thesis .
  qed
  moreover have "sum_list (map nproj ?rs) = sum_list (map nproj fs)"
  proof -
    have "sum_list (map nproj ?rs) = sum_list (map (nproj \<circ> snd) (zip ks fs))"
      by (simp add: sum_list_sort_key)
    also have "\<dots> = sum_list (map nproj (map snd (zip ks fs)))" by simp
    also from len have "map snd (zip ks fs) = fs" by (rule map_snd_zip)
    finally show ?thesis .
  qed
  ultimately show ?thesis by blast
qed

lemma rebuild_fold_well_formed:
  assumes "well_formed acc" and "\<forall>f \<in> set fs. well_formed f"
  shows "well_formed (foldl (\<lambda>cur nxt. Node ''Join'' [cur, nxt] (join_props None [] [])) acc fs)
       \<and> nproj (foldl (\<lambda>cur nxt. Node ''Join'' [cur, nxt] (join_props None [] [])) acc fs)
           = nproj acc + sum_list (map nproj fs)"
  using assms
proof (induction fs arbitrary: acc)
  case Nil
  then show ?case by simp
next
  case (Cons f fs)
  from Cons.prems have "well_formed (Node ''Join'' [acc, f] (join_props None [] []))"
    by (simp add: arity_simps)
  from Cons.IH [OF this] Cons.prems(2) show ?case by simp
qed

lemma rebuild_chain_well_formed:
  assumes "fs \<noteq> []" and "\<forall>f \<in> set fs. well_formed f"
  shows "\<exists>t'. rebuild_chain fs = Inr t' \<and> well_formed t'
           \<and> nproj t' = sum_list (map nproj fs)"
proof -
  from assms(1) obtain f rest where fs: "fs = f # rest" by (cases fs) auto
  with assms(2) have "well_formed f" "\<forall>x \<in> set rest. well_formed x" by simp_all
  from rebuild_fold_well_formed [OF this] fs show ?thesis
    by (simp add: rebuild_chain_def)
qed

lemma list_all2_same_sum:
  "list_all2 (\<lambda>x y. h y = (h x :: nat)) xs ys \<Longrightarrow> sum_list (map h ys) = sum_list (map h xs)"
  by (induction rule: list_all2_induct) auto

lemma reorder_joins_helper_kept:
  "well_formed n \<Longrightarrow> \<exists>n'. reorder_joins_helper n = Inr n' \<and> kept n n'"
proof (induction n rule: reorder_joins_helper.induct)
  case (1 opn cs p)
  note wf = "1.prems"
  show ?case
  proof (cases "opn = ''Join'' \<or> opn = ''Cross''")
    case False
    have "\<exists>cs'. collect (map reorder_joins_helper cs) = Inr cs'
            \<and> kept (Node opn cs p) (Node opn cs' p)"
      using wf "1.IH"(2) [OF False] by (rule generic_kept)
    then obtain cs' where c: "collect (map reorder_joins_helper cs) = Inr cs'"
      and k: "kept (Node opn cs p) (Node opn cs' p)" by blast
    have "reorder_joins_helper (Node opn cs p) = Inr (Node opn cs' p)"
      by (simp only: reorder_joins_helper.simps if_not_P [OF False] c sum.case)
    with k show ?thesis by blast
  next
    case True
    then have a2: "arity opn = Some 2" by (auto simp: arity_simps)
    from collect_factors_well_formed [OF wf] obtain fs
      where fs: "collect_factors (Node opn cs p) = Inr fs" and ne: "fs \<noteq> []"
        and wfs: "\<forall>f \<in> set fs. well_formed f"
        and nfs: "sum_list (map nproj fs) = nproj (Node opn cs p)" by blast
    have "\<exists>ys. collect (map reorder_joins_helper fs) = Inr ys \<and> list_all2 kept fs ys"
      using "1.IH"(1) [OF True fs] wfs by (intro collect_map_total) auto
    then obtain fs' where fs': "collect (map reorder_joins_helper fs) = Inr fs'"
      and a2k: "list_all2 kept fs fs'" by blast
    from a2k have wfs': "\<forall>f \<in> set fs'. well_formed f"
      by (auto simp: list_all2_conv_all_nth in_set_conv_nth kept_def kept_shape_def)
    from a2k have "list_all2 (\<lambda>x y. nproj y = nproj x) fs fs'"
      by (rule list_all2_mono) (simp add: kept_def)
    then have nfs': "sum_list (map nproj fs') = sum_list (map nproj fs)"
      by (rule list_all2_same_sum)
    from a2k ne have ne': "fs' \<noteq> []" by (auto dest: list_all2_lengthD)
    from sort_factors_total [OF wfs'] obtain rs where rs: "sort_factors fs' = Inr rs"
      and srs: "set rs = set fs'"
      and nrs: "sum_list (map nproj rs) = sum_list (map nproj fs')" by blast
    from srs ne' have "rs \<noteq> []" by auto
    moreover from srs wfs' have "\<forall>f \<in> set rs. well_formed f" by simp
    ultimately obtain t' where t': "rebuild_chain rs = Inr t'" and wt: "well_formed t'"
      and nt: "nproj t' = sum_list (map nproj rs)"
      using rebuild_chain_well_formed by blast
    have "reorder_joins_helper (Node opn cs p) = Inr t'"
      by (simp only: reorder_joins_helper.simps if_P [OF True] fs fs' rs t' sum.case)
    moreover from nt nrs nfs' nfs have "nproj t' = nproj (Node opn cs p)" by simp
    with a2 wt have "kept (Node opn cs p) t'" by (rule kept_binary)
    ultimately show ?thesis by blast
  qed
qed

text \<open>
  projection_pushdown adds Project nodes; below a tree without Project, every Project of
  the result has a Scan as its only child.
\<close>

fun all_projects_over_scans :: "node \<Rightarrow> bool" where
  "all_projects_over_scans (Node opn cs p) =
     ((opn = ''Project'' \<longrightarrow> (case cs of [c] \<Rightarrow> op c = ''Scan'' | _ \<Rightarrow> False))
      \<and> (\<forall>c \<in> set cs. all_projects_over_scans c))"

definition pushed :: "node \<Rightarrow> node \<Rightarrow> bool" where
  "pushed t t' = (kept_shape t t' \<and> (nproj t = 0 \<longrightarrow> all_projects_over_scans t'))"

lemma pushed_node1:
  assumes "well_formed (Node opn [c] p)" and "pushed c c'"
  shows "pushed (Node opn [c] p) (Node opn [c'] p)"
  using assms kept_shape_node1 [of opn c p c'] by (simp add: pushed_def)

lemma pushed_node2:
  assumes "well_formed (Node opn [l, r] p)" and "pushed l l'" and "pushed r r'"
  shows "pushed (Node opn [l, r] p) (Node opn [l', r'] p)"
proof -
  from assms(1) have "arity opn = Some 2" by simp
  then have "opn \<noteq> ''Project''" by (rule arity2_not)
  with assms kept_shape_node2 [of opn l r p l' r'] show ?thesis by (simp add: pushed_def)
qed

lemma side_needed_total: "well_formed side \<Longrightarrow> \<exists>s. side_needed needed keys side = Inr s"
  using aliases_total [of side] by (auto simp: side_needed_def)

lemma projection_pushdown_helper_pushed:
  "well_formed t \<Longrightarrow> \<forall>needed. \<exists>t'. projection_pushdown_helper t needed = Inr t' \<and> pushed t t'"
proof (induction t)
  case (Node opn cs p)
  note wf = Node.prems
  have ih: "\<exists>c'. projection_pushdown_helper c nd = Inr c' \<and> pushed c c'"
    if "c \<in> set cs" "well_formed c" for c nd
    using Node.IH [OF that] by blast
  have one: "\<exists>t'. (case projection_pushdown_helper c nd of Inl e \<Rightarrow> Inl e
                     | Inr child \<Rightarrow> Inr (Node opn (child # rest) p)) = Inr t'
               \<and> pushed (Node opn cs p) t'"
    if "arity opn = Some 1" "cs = c # rest" for c rest nd
  proof -
    from wf that(1) obtain c0 where c0: "cs = [c0]" and wc: "well_formed c0"
      by (rule well_formed_unary)
    with that(2) have e: "c0 = c" "rest = []" by simp_all
    from ih [of c nd] c0 e wc obtain c' where h: "projection_pushdown_helper c nd = Inr c'"
      and k: "pushed c c'" by auto
    from wf k have "pushed (Node opn cs p) (Node opn [c'] p)"
      unfolding c0 e by (rule pushed_node1)
    with h e show ?thesis by simp
  qed
  show ?case
  proof
    fix needed
    show "\<exists>t'. projection_pushdown_helper (Node opn cs p) needed = Inr t'
            \<and> pushed (Node opn cs p) t'"
    proof (cases "opn = ''Scan''")
      case True
      from wf True have cs: "cs = []" by (simp add: arity_simps)
      from wf True obtain al where al: "alias_p p = Some al" by auto
      let ?n = "Node ''Scan'' [] p"
      let ?pr = "Node ''Project'' [?n]
                  (no_props\<lparr>attrs := Some (sorted_list_of_set {a \<in> needed. before_dot a = al})\<rparr>)"
      from wf have wn: "well_formed ?n" by (simp add: True cs)
      have "projection_pushdown_helper (Node opn cs p) needed = Inr ?n
          \<or> projection_pushdown_helper (Node opn cs p) needed = Inr ?pr"
        by (simp add: True cs al)
      moreover from wn have "pushed ?n ?n"
        by (simp add: pushed_def kept_shape_refl)
      moreover from wn have "pushed ?n ?pr"
        by (simp add: pushed_def kept_shape_def stable_op_simps project_on_top_def arity_simps)
      ultimately show ?thesis unfolding True cs by blast
    next
      case ns: False
      show ?thesis
      proof (cases "opn = ''Select'' \<or> opn = ''Having''")
        case True
        then have a1: "arity opn = Some 1" by (auto simp: arity_simps)
        from wf a1 obtain c where cs: "cs = [c]" by (rule well_formed_unary)
        have "projection_pushdown_helper (Node opn cs p) needed =
            (case projection_pushdown_helper c (needed \<union> set (get_list (pred_attrs p))) of
               Inl e \<Rightarrow> Inl e | Inr child \<Rightarrow> Inr (Node opn (child # []) p))"
          by (simp only: projection_pushdown_helper.simps if_not_P [OF ns] if_P [OF True] cs
              list.case)
        with one [OF a1 cs] show ?thesis by simp
      next
        case nsh: False
        show ?thesis
        proof (cases "opn = ''Join'' \<or> opn = ''Cross''")
          case True
          then have a2: "arity opn = Some 2" by (auto simp: arity_simps)
          from wf a2 obtain l r where cs: "cs = [l, r]"
            and wl: "well_formed l" and wr: "well_formed r"
            by (rule well_formed_binary)
          let ?keys = "set (get_list (join_keys_left p)) \<union> set (get_list (join_keys_right p))"
          from side_needed_total [OF wl] obtain ln where ln: "side_needed needed ?keys l = Inr ln"
            by blast
          from side_needed_total [OF wr] obtain rn where rn: "side_needed needed ?keys r = Inr rn"
            by blast
          from ih [of l ln] cs wl obtain l' where hl: "projection_pushdown_helper l ln = Inr l'"
            and kl: "pushed l l'" by auto
          from ih [of r rn] cs wr obtain r' where hr: "projection_pushdown_helper r rn = Inr r'"
            and kr: "pushed r r'" by auto
          have "projection_pushdown_helper (Node opn cs p) needed = Inr (Node opn [l', r'] p)"
            by (simp only: projection_pushdown_helper.simps if_not_P [OF ns] if_not_P [OF nsh]
                if_P [OF True] cs list.case ln rn hl hr sum.case)
          moreover from wf kl kr have "pushed (Node opn cs p) (Node opn [l', r'] p)"
            unfolding cs by (rule pushed_node2)
          ultimately show ?thesis by blast
        next
          case nj: False
          show ?thesis
          proof (cases "opn = ''Group''")
            case True
            then have a1: "arity opn = Some 1" by (simp add: arity_simps)
            from wf a1 obtain c where cs: "cs = [c]" by (rule well_formed_unary)
            have "projection_pushdown_helper (Node opn cs p) needed =
                (case projection_pushdown_helper c
                        (set (get_list (group_by p)) \<union> agg_attrs (get_list (aggs p))) of
                   Inl e \<Rightarrow> Inl e | Inr child \<Rightarrow> Inr (Node opn (child # []) p))"
              by (simp only: projection_pushdown_helper.simps if_not_P [OF ns] if_not_P [OF nsh]
                  if_not_P [OF nj] if_P [OF True] cs list.case)
            with one [OF a1 cs] show ?thesis by simp
          next
            case ng: False
            show ?thesis
            proof (cases "opn = ''Project''")
              case True
              then have a1: "arity opn = Some 1" by (simp add: arity_simps)
              from wf a1 obtain c where cs: "cs = [c]" by (rule well_formed_unary)
              have "projection_pushdown_helper (Node opn cs p) needed =
                  (case projection_pushdown_helper c
                          (if ''*'' \<in> set (get_list (attrs p)) \<or> get_list (attrs p) = []
                           then needed else set (get_list (attrs p))) of
                     Inl e \<Rightarrow> Inl e | Inr child \<Rightarrow> Inr (Node opn (child # []) p))"
                by (simp only: projection_pushdown_helper.simps if_not_P [OF ns]
                    if_not_P [OF nsh] if_not_P [OF nj] if_not_P [OF ng] if_P [OF True] cs
                    list.case)
              with one [OF a1 cs] show ?thesis by simp
            next
              case np: False
              show ?thesis
              proof (cases "opn = ''Order''")
                case True
                then have a1: "arity opn = Some 1" by (simp add: arity_simps)
                from wf a1 obtain c where cs: "cs = [c]" by (rule well_formed_unary)
                have "projection_pushdown_helper (Node opn cs p) needed =
                    (case projection_pushdown_helper c (needed \<union> set (get_list (order_by p))) of
                       Inl e \<Rightarrow> Inl e | Inr child \<Rightarrow> Inr (Node opn (child # []) p))"
                  by (simp only: projection_pushdown_helper.simps if_not_P [OF ns]
                      if_not_P [OF nsh] if_not_P [OF nj] if_not_P [OF ng] if_not_P [OF np]
                      if_P [OF True] cs list.case)
                with one [OF a1 cs] show ?thesis by simp
              next
                case no: False
                from wf have "arity opn = Some (length cs)" by simp
                then have False
                proof (cases rule: arity_cases)
                  case scan
                  with ns show False by simp
                next
                  case unary
                  with nsh ng np no show False by simp
                next
                  case having
                  with nsh show False by simp
                next
                  case binary
                  with nj show False by simp
                qed
                then show ?thesis ..
              qed
            qed
          qed
        qed
      qed
    qed
  qed
qed

lemma kept_shape_trans: "kept_shape t u \<Longrightarrow> kept_shape u v \<Longrightarrow> kept_shape t v"
  by (auto simp: kept_shape_def)

lemma kept_kept_shape: "kept t u \<Longrightarrow> kept_shape t u"
  by (simp add: kept_def)

lemma pushed_kept_shape: "pushed t u \<Longrightarrow> kept_shape t u"
  by (simp add: pushed_def)

lemma kept_shape_well_formed: "kept_shape t u \<Longrightarrow> well_formed u"
  by (simp add: kept_shape_def)

lemma breakup_conjuncts_kept: "well_formed t \<Longrightarrow> \<exists>t'. breakup_conjuncts t = Inr t' \<and> kept t t'"
  unfolding breakup_conjuncts_def by (rule breakup_conjuncts_helper_kept)

lemma selection_pushdown_kept: "well_formed t \<Longrightarrow> \<exists>t'. selection_pushdown t = Inr t' \<and> kept t t'"
  unfolding selection_pushdown_def by (rule selection_pushdown_helper_kept)

lemma joinize_kept: "well_formed t \<Longrightarrow> \<exists>t'. joinize t = Inr t' \<and> kept t t'"
  unfolding joinize_def by (rule joinize_helper_kept)

lemma reorder_joins_kept: "well_formed t \<Longrightarrow> \<exists>t'. reorder_joins t = Inr t' \<and> kept t t'"
  unfolding reorder_joins_def by (rule reorder_joins_helper_kept)

lemma having_to_where_kept: "well_formed t \<Longrightarrow> \<exists>t'. having_to_where t = Inr t' \<and> kept t t'"
  unfolding having_to_where_def by (rule having_to_where_helper_kept)

lemma dedup_selections_kept: "well_formed t \<Longrightarrow> \<exists>t'. dedup_selections t = Inr t' \<and> kept t t'"
proof -
  assume "well_formed t"
  then obtain t' s' where "dedup_selections_helper t {} = Inr (t', s')" "kept t t'"
    using dedup_selections_helper_kept_all by blast
  then show ?thesis by (simp add: dedup_selections_def)
qed

lemma projection_pushdown_pushed:
  "well_formed t \<Longrightarrow> \<exists>t'. projection_pushdown t = Inr t' \<and> pushed t t'"
  unfolding projection_pushdown_def using projection_pushdown_helper_pushed by blast

lemma passes_in_order_kept_shape:
  assumes "well_formed t"
  shows "\<exists>t'. passes_in_order t = Inr t' \<and> kept_shape t t'"
proof -
  from breakup_conjuncts_kept [OF assms] obtain t1
    where 1: "breakup_conjuncts t = Inr t1" and k1: "kept_shape t t1"
    by (blast dest: kept_kept_shape)
  from selection_pushdown_kept [OF kept_shape_well_formed [OF k1]] obtain t2
    where 2: "selection_pushdown t1 = Inr t2" and k2: "kept_shape t1 t2"
    by (blast dest: kept_kept_shape)
  from joinize_kept [OF kept_shape_well_formed [OF k2]] obtain t3
    where 3: "joinize t2 = Inr t3" and k3: "kept_shape t2 t3"
    by (blast dest: kept_kept_shape)
  from projection_pushdown_pushed [OF kept_shape_well_formed [OF k3]] obtain t4
    where 4: "projection_pushdown t3 = Inr t4" and k4: "kept_shape t3 t4"
    by (blast dest: pushed_kept_shape)
  from reorder_joins_kept [OF kept_shape_well_formed [OF k4]] obtain t5
    where 5: "reorder_joins t4 = Inr t5" and k5: "kept_shape t4 t5"
    by (blast dest: kept_kept_shape)
  from having_to_where_kept [OF kept_shape_well_formed [OF k5]] obtain t6
    where 6: "having_to_where t5 = Inr t6" and k6: "kept_shape t5 t6"
    by (blast dest: kept_kept_shape)
  from dedup_selections_kept [OF kept_shape_well_formed [OF k6]] obtain t7
    where 7: "dedup_selections t6 = Inr t7" and k7: "kept_shape t6 t7"
    by (blast dest: kept_kept_shape)
  have "passes_in_order t = Inr t7"
    by (simp add: passes_in_order_def and_then_def 1 2 3 4 5 6 7)
  moreover have "kept_shape t t7"
    using k1 k2 k3 k4 k5 k6 k7 by (blast intro: kept_shape_trans)
  ultimately show ?thesis by blast
qed

section \<open>The passes under the recursion limit\<close>

text \<open>
  \<open>approx g y\<close> relates a computation under the recursion limit to its outcome \<open>y\<close> on a
  stack without bound: with \<open>k\<close> nested calls left, \<open>g k\<close> either raises RecursionError or
  ends as \<open>y\<close> does (with the same tree or the same exception), and it ends as \<open>y\<close> for
  every \<open>k\<close> from some number on. Every function of rules.py is related in this way to
  its description without limit, so what the sections above and below prove of a pass
  holds of every run that does not exhaust the stack.
\<close>

definition approx :: "(nat \<Rightarrow> error + 'a) \<Rightarrow> error + 'a \<Rightarrow> bool" where
  "approx g y = ((\<forall>k. g k = Inl RecursionError \<or> g k = y) \<and> (\<exists>k0. \<forall>k\<ge>k0. g k = y))"

lemma approx_const: "approx (\<lambda>k. y) y"
  by (simp add: approx_def)

lemma approx_call:
  assumes "approx (\<lambda>d. g (Suc d)) y" and "g 0 = Inl RecursionError"
  shows "approx g y"
proof -
  from assms(1) have a: "g (Suc d) = Inl RecursionError \<or> g (Suc d) = y" for d
    by (simp add: approx_def)
  from assms(1) obtain k0 where k0: "\<forall>k\<ge>k0. g (Suc k) = y"
    by (auto simp: approx_def)
  have "g k = Inl RecursionError \<or> g k = y" for k
    using a assms(2) by (cases k) auto
  moreover have "\<forall>k\<ge>Suc k0. g k = y"
  proof (intro allI impI)
    fix k assume "Suc k0 \<le> k"
    then obtain d where "k = Suc d" "k0 \<le> d" by (cases k) auto
    with k0 show "g k = y" by simp
  qed
  ultimately show ?thesis unfolding approx_def by blast
qed

lemma approx_bind:
  assumes "approx g y" and "\<And>v. y = Inr v \<Longrightarrow> approx (\<lambda>k. F k v) (G v)"
  shows "approx (\<lambda>k. case g k of Inl e \<Rightarrow> Inl e | Inr v \<Rightarrow> F k v)
           (case y of Inl e \<Rightarrow> Inl e | Inr v \<Rightarrow> G v)"
proof -
  from assms(1) have a: "g k = Inl RecursionError \<or> g k = y" for k
    by (simp add: approx_def)
  from assms(1) obtain k0 where k0: "\<forall>k\<ge>k0. g k = y"
    by (auto simp: approx_def)
  show ?thesis
  proof (cases y)
    case (Inl e)
    have "(case g k of Inl e \<Rightarrow> Inl e | Inr v \<Rightarrow> F k v) = Inl RecursionError
        \<or> (case g k of Inl e \<Rightarrow> Inl e | Inr v \<Rightarrow> F k v) = Inl e" for k
      using a [of k] Inl by auto
    moreover have "\<exists>k2. \<forall>k\<ge>k2. (case g k of Inl e \<Rightarrow> Inl e | Inr v \<Rightarrow> F k v) = Inl e"
      by (rule exI [of _ k0]) (use k0 Inl in simp)
    ultimately show ?thesis unfolding approx_def Inl by simp
  next
    case (Inr v)
    from assms(2) [OF Inr] have b: "F k v = Inl RecursionError \<or> F k v = G v" for k
      by (simp add: approx_def)
    from assms(2) [OF Inr] obtain k1 where k1: "\<forall>k\<ge>k1. F k v = G v"
      by (auto simp: approx_def)
    have "(case g k of Inl e \<Rightarrow> Inl e | Inr v \<Rightarrow> F k v) = Inl RecursionError
        \<or> (case g k of Inl e \<Rightarrow> Inl e | Inr v \<Rightarrow> F k v) = G v" for k
      using a [of k] b [of k] Inr by auto
    moreover have "\<exists>k2. \<forall>k\<ge>k2. (case g k of Inl e \<Rightarrow> Inl e | Inr v \<Rightarrow> F k v) = G v"
      by (rule exI [of _ "max k0 k1"]) (use k0 k1 Inr in simp)
    ultimately show ?thesis unfolding approx_def Inr by simp
  qed
qed

lemma approx_if:
  assumes "c \<Longrightarrow> approx A a" and "\<not> c \<Longrightarrow> approx B b"
  shows "approx (\<lambda>k. if c then A k else B k) (if c then a else b)"
  using assms by (cases c) simp_all

lemma approx_case_list:
  assumes "xs = [] \<Longrightarrow> approx A a" and "\<And>x r. xs = x # r \<Longrightarrow> approx (\<lambda>k. B k x r) (b x r)"
  shows "approx (\<lambda>k. case xs of [] \<Rightarrow> A k | x # r \<Rightarrow> B k x r)
           (case xs of [] \<Rightarrow> a | x # r \<Rightarrow> b x r)"
  using assms by (cases xs) simp_all

lemma approx_case_prod:
  assumes "\<And>a b. v = (a, b) \<Longrightarrow> approx (\<lambda>k. F k a b) (G a b)"
  shows "approx (\<lambda>k. case v of (a, b) \<Rightarrow> F k a b) (case v of (a, b) \<Rightarrow> G a b)"
  using assms by (cases v) simp

lemma collect_Cons:
  "collect (r # rs) =
     (case r of Inl e \<Rightarrow> Inl e
      | Inr x \<Rightarrow> (case collect rs of Inl e \<Rightarrow> Inl e | Inr xs \<Rightarrow> Inr (x # xs)))"
  by (cases r) simp_all

lemma approx_collect:
  assumes "\<And>c. c \<in> set cs \<Longrightarrow> approx (\<lambda>k. g k c) (f c)"
  shows "approx (\<lambda>k. collect (map (g k) cs)) (collect (map f cs))"
  using assms
proof (induction cs)
  case Nil
  show ?case by (simp add: approx_const)
next
  case (Cons c cs)
  have 1: "approx (\<lambda>k. g k c) (f c)" by (rule Cons.prems) simp
  have 2: "approx (\<lambda>k. collect (map (g k) cs)) (collect (map f cs))"
    by (rule Cons.IH) (simp add: Cons.prems)
  show ?case
    by (simp only: list.map collect_Cons) (intro approx_bind approx_const 1 2)
qed

lemmas approx_rules = approx_const approx_if approx_case_list approx_bind approx_collect
  approx_case_prod

lemma aliases_lim_approx: "approx (\<lambda>k. aliases_lim k t) (aliases t)"
proof (induction t)
  case (Node opn cs p)
  show ?case
  proof (rule approx_call)
    show "aliases_lim 0 (Node opn cs p) = Inl RecursionError" by simp
    show "approx (\<lambda>d. aliases_lim (Suc d) (Node opn cs p)) (aliases (Node opn cs p))"
      by (simp only: aliases_lim.simps aliases.simps) (intro approx_rules Node.IH)
  qed
qed

lemma breakup_conjuncts_helper_lim_approx:
  "approx (\<lambda>k. breakup_conjuncts_helper_lim k t) (breakup_conjuncts_helper t)"
proof (induction t)
  case (Node opn cs p)
  show ?case
  proof (rule approx_call)
    show "breakup_conjuncts_helper_lim 0 (Node opn cs p) = Inl RecursionError" by simp
    show "approx (\<lambda>d. breakup_conjuncts_helper_lim (Suc d) (Node opn cs p))
        (breakup_conjuncts_helper (Node opn cs p))"
      by (simp only: breakup_conjuncts_helper_lim.simps breakup_conjuncts_helper.simps)
        (intro approx_rules Node.IH)
  qed
qed

lemma joinize_helper_lim_approx:
  "approx (\<lambda>k. joinize_helper_lim k t) (joinize_helper t)"
proof (induction t)
  case (Node opn cs p)
  show ?case
  proof (rule approx_call)
    show "joinize_helper_lim 0 (Node opn cs p) = Inl RecursionError" by simp
    show "approx (\<lambda>d. joinize_helper_lim (Suc d) (Node opn cs p))
        (joinize_helper (Node opn cs p))"
      by (simp only: joinize_helper_lim.simps joinize_helper.simps)
        (intro approx_rules Node.IH)
  qed
qed

lemma having_to_where_helper_lim_approx:
  "approx (\<lambda>k. having_to_where_helper_lim k t) (having_to_where_helper t)"
proof (induction t)
  case (Node opn cs p)
  show ?case
  proof (rule approx_call)
    show "having_to_where_helper_lim 0 (Node opn cs p) = Inl RecursionError" by simp
    show "approx (\<lambda>d. having_to_where_helper_lim (Suc d) (Node opn cs p))
        (having_to_where_helper (Node opn cs p))"
      by (simp only: having_to_where_helper_lim.simps having_to_where_helper.simps)
        (intro approx_rules Node.IH; simp)
  qed
qed

lemma collect_factors_lim_approx:
  "approx (\<lambda>k. collect_factors_lim k t) (collect_factors t)"
proof (induction t)
  case (Node opn cs p)
  show ?case
  proof (rule approx_call)
    show "collect_factors_lim 0 (Node opn cs p) = Inl RecursionError" by simp
    show "approx (\<lambda>d. collect_factors_lim (Suc d) (Node opn cs p))
        (collect_factors (Node opn cs p))"
      by (simp only: collect_factors_lim.simps collect_factors.simps)
        (intro approx_rules Node.IH; simp)
  qed
qed

lemma count_selections_lim_approx:
  "approx (\<lambda>k. count_selections_lim k t) (count_selections t)"
proof (induction t)
  case (Node opn cs p)
  show ?case
  proof (rule approx_call)
    show "count_selections_lim 0 (Node opn cs p) = Inl RecursionError" by simp
    show "approx (\<lambda>d. count_selections_lim (Suc d) (Node opn cs p))
        (count_selections (Node opn cs p))"
      by (simp only: count_selections_lim.simps count_selections.simps)
        (intro approx_rules Node.IH; simp)
  qed
qed

lemma breakup_conjuncts_lim_approx:
  "approx (\<lambda>k. breakup_conjuncts_lim k t) (breakup_conjuncts t)"
  unfolding breakup_conjuncts_lim_def breakup_conjuncts_def
  by (rule approx_call) (simp_all add: breakup_conjuncts_helper_lim_approx)

lemma joinize_lim_approx: "approx (\<lambda>k. joinize_lim k t) (joinize t)"
  unfolding joinize_lim_def joinize_def
  by (rule approx_call) (simp_all add: joinize_helper_lim_approx)

lemma having_to_where_lim_approx: "approx (\<lambda>k. having_to_where_lim k t) (having_to_where t)"
  unfolding having_to_where_lim_def having_to_where_def
  by (rule approx_call) (simp_all add: having_to_where_helper_lim_approx)

lemma selection_pushdown_helper_lim_approx:
  "approx (\<lambda>k. selection_pushdown_helper_lim k t) (selection_pushdown_helper t)"
proof (induction t rule: selection_pushdown_helper.induct)
  case (1 opn cs p)
  show ?case
  proof (rule approx_call)
    show "selection_pushdown_helper_lim 0 (Node opn cs p) = Inl RecursionError" by simp
    show "approx (\<lambda>d. selection_pushdown_helper_lim (Suc d) (Node opn cs p))
        (selection_pushdown_helper (Node opn cs p))"
      apply (subst selection_pushdown_helper.simps)
      apply (simp only: selection_pushdown_helper_lim.simps)
      apply (intro approx_rules aliases_lim_approx)
      subgoal by (rule "1.IH"(1); assumption)
      subgoal by (rule "1.IH"(2); assumption)
      subgoal by (rule "1.IH"(3); assumption)
      subgoal by (rule "1.IH"(4); assumption)
      done
  qed
qed

lemma selection_pushdown_lim_approx:
  "approx (\<lambda>k. selection_pushdown_lim k t) (selection_pushdown t)"
  unfolding selection_pushdown_lim_def selection_pushdown_def
  by (rule approx_call) (simp_all add: selection_pushdown_helper_lim_approx)

lemma side_needed_lim_approx:
  "approx (\<lambda>k. side_needed_lim k nd keys side) (side_needed nd keys side)"
  unfolding side_needed_lim_def side_needed_def
  by (intro approx_rules aliases_lim_approx)

lemma projection_pushdown_helper_lim_approx:
  "approx (\<lambda>k. projection_pushdown_helper_lim k t nd) (projection_pushdown_helper t nd)"
proof (induction t arbitrary: nd)
  case (Node opn cs p)
  show ?case
  proof (rule approx_call)
    show "projection_pushdown_helper_lim 0 (Node opn cs p) nd = Inl RecursionError" by simp
    show "approx (\<lambda>d. projection_pushdown_helper_lim (Suc d) (Node opn cs p) nd)
        (projection_pushdown_helper (Node opn cs p) nd)"
      by (simp only: projection_pushdown_helper_lim.simps projection_pushdown_helper.simps)
        (intro approx_rules side_needed_lim_approx Node.IH; simp)
  qed
qed

lemma projection_pushdown_lim_approx:
  "approx (\<lambda>k. projection_pushdown_lim k t) (projection_pushdown t)"
  unfolding projection_pushdown_lim_def projection_pushdown_def
  by (rule approx_call) (simp_all add: projection_pushdown_helper_lim_approx)

lemma sort_factors_lim_approx: "approx (\<lambda>k. sort_factors_lim k fs) (sort_factors fs)"
  unfolding sort_factors_lim_def sort_factors_def
  by (intro approx_rules count_selections_lim_approx)

lemma rebuild_chain_lim_approx: "approx (\<lambda>k. rebuild_chain_lim k fs) (rebuild_chain fs)"
  unfolding rebuild_chain_lim_def
  by (rule approx_call) (simp_all add: approx_const)

lemma reorder_joins_helper_lim_approx:
  "approx (\<lambda>k. reorder_joins_helper_lim k t) (reorder_joins_helper t)"
proof (induction t rule: reorder_joins_helper.induct)
  case (1 opn cs p)
  show ?case
  proof (rule approx_call)
    show "reorder_joins_helper_lim 0 (Node opn cs p) = Inl RecursionError" by simp
    show "approx (\<lambda>d. reorder_joins_helper_lim (Suc d) (Node opn cs p))
        (reorder_joins_helper (Node opn cs p))"
      apply (subst reorder_joins_helper.simps)
      apply (simp only: reorder_joins_helper_lim.simps)
      apply (intro approx_rules collect_factors_lim_approx sort_factors_lim_approx
          rebuild_chain_lim_approx)
      subgoal by (rule "1.IH"(1); assumption)
      subgoal by (rule "1.IH"(2); assumption)
      done
  qed
qed

lemma reorder_joins_lim_approx: "approx (\<lambda>k. reorder_joins_lim k t) (reorder_joins t)"
  unfolding reorder_joins_lim_def reorder_joins_def
  by (rule approx_call) (simp_all add: reorder_joins_helper_lim_approx)

lemma dedup_selections_helper_lim_approx:
  "approx (\<lambda>k. dedup_selections_helper_lim k t seen) (dedup_selections_helper t seen)"
  "approx (\<lambda>k. dedup_selections_children_lim k ts seen) (dedup_selections_children ts seen)"
proof (induction t seen and ts seen rule: dedup_selections_helper_dedup_selections_children.induct)
  case (1 opn cs p seen)
  show ?case
  proof (rule approx_call)
    show "dedup_selections_helper_lim 0 (Node opn cs p) seen = Inl RecursionError" by simp
    show "approx (\<lambda>d. dedup_selections_helper_lim (Suc d) (Node opn cs p) seen)
        (dedup_selections_helper (Node opn cs p) seen)"
      apply (simp only: dedup_selections_helper_lim.simps dedup_selections_helper.simps)
      apply (intro approx_rules)
      subgoal by (rule "1.IH"(1); assumption)
      subgoal by (rule "1.IH"(2); assumption)
      subgoal by (rule "1.IH"(3); assumption)
      done
  qed
next
  case (2 seen)
  show ?case by (simp add: approx_const)
next
  case (3 c cs seen)
  show ?case
    apply (simp only: dedup_selections_children_lim.simps dedup_selections_children.simps)
    apply (intro approx_rules)
    subgoal by (rule "3.IH"(1))
    subgoal by (rule "3.IH"(2); (assumption | simp))
    done
qed

lemma approx_map_sum:
  assumes "approx g y"
  shows "approx (\<lambda>k. map_sum id f (g k)) (map_sum id f y)"
proof -
  from assms have a: "g k = Inl RecursionError \<or> g k = y" for k
    by (simp add: approx_def)
  from assms obtain k0 where k0: "\<forall>k\<ge>k0. g k = y"
    by (auto simp: approx_def)
  have "map_sum id f (g k) = Inl RecursionError \<or> map_sum id f (g k) = map_sum id f y" for k
    using a [of k] by auto
  moreover have "\<exists>k2. \<forall>k\<ge>k2. map_sum id f (g k) = map_sum id f y"
    by (rule exI [of _ k0]) (use k0 in simp)
  ultimately show ?thesis unfolding approx_def by simp
qed

lemma dedup_selections_lim_approx:
  "approx (\<lambda>k. dedup_selections_lim k t) (dedup_selections t)"
  unfolding dedup_selections_lim_def dedup_selections_def
  by (rule approx_call)
    (simp_all add: approx_map_sum dedup_selections_helper_lim_approx)

lemma step_approx:
  assumes "\<And>x. approx (\<lambda>k. f k x) (h x)"
  shows "approx (\<lambda>k. step k f x) (h x)"
  unfolding step_def by (rule approx_call) (simp_all add: assms)

lemma optimize_pipeline_approx: "approx (\<lambda>k. optimize_pipeline k t) (passes_in_order t)"
proof (rule approx_call)
  show "optimize_pipeline 0 t = Inl RecursionError"
    by (simp add: optimize_pipeline_def)
  note steps =
    step_approx [of breakup_conjuncts_lim breakup_conjuncts, OF breakup_conjuncts_lim_approx]
    step_approx [of selection_pushdown_lim selection_pushdown, OF selection_pushdown_lim_approx]
    step_approx [of joinize_lim joinize, OF joinize_lim_approx]
    step_approx [of projection_pushdown_lim projection_pushdown, OF projection_pushdown_lim_approx]
    step_approx [of reorder_joins_lim reorder_joins, OF reorder_joins_lim_approx]
    step_approx [of having_to_where_lim having_to_where, OF having_to_where_lim_approx]
    step_approx [of dedup_selections_lim dedup_selections, OF dedup_selections_lim_approx]
  show "approx (\<lambda>d. optimize_pipeline (Suc d) t) (passes_in_order t)"
    unfolding optimize_pipeline_def passes_in_order_def and_then_def
    by (simp only: nat.case) (intro approx_bind steps)
qed

section \<open>Canonical trees through the passes\<close>

lemma cross_chain_well_formed: "cross_chain t \<Longrightarrow> well_formed t \<and> nproj t = 0"
proof (induction t)
  case (Node opn cs p)
  show ?case
  proof (cases "opn = ''Scan''")
    case True
    with Node.prems show ?thesis by (simp add: arity_simps)
  next
    case False
    with Node.prems obtain l r where cs: "cs = [l, r]" and l: "cross_chain l"
      and r: "op r = ''Scan''" "children r = []" "alias_p (props r) \<noteq> None"
      and o: "opn = ''Cross''"
      by (auto split: list.splits)
    from r have "well_formed r \<and> nproj r = 0" by (cases r) (simp add: arity_simps)
    moreover from Node.IH [of l] l cs have "well_formed l \<and> nproj l = 0" by simp
    ultimately show ?thesis by (simp add: cs o arity_simps)
  qed
qed

lemma select_tree_well_formed: "select_tree t \<Longrightarrow> well_formed t \<and> nproj t = 0"
proof (induction t)
  case (Node opn cs p)
  show ?case
  proof (cases "opn = ''Select''")
    case True
    with Node.prems obtain c where c: "cs = [c]" "select_tree c"
      by (auto split: list.splits)
    with Node.IH [of c] have "well_formed c \<and> nproj c = 0" by simp
    with c True show ?thesis by (simp add: arity_simps)
  next
    case False
    with Node.prems have "cross_chain (Node opn cs p)" by simp
    then show ?thesis by (rule cross_chain_well_formed)
  qed
qed

lemma top_wrap_well_formed:
  assumes "well_formed body"
  shows "well_formed (top_wrap ob pp body) \<and> project_on_top (top_wrap ob pp body)
         \<and> nproj (top_wrap ob pp body) = Suc (nproj body)"
  using assms by (cases ob) (simp_all add: top_wrap_def arity_simps project_on_top_def)

lemma canonical_well_formed:
  assumes "canonical t"
  shows "well_formed t \<and> project_on_top t \<and> nproj t = 1"
  using assms
proof (cases rule: canonical_cases)
  case (having ob pp hp gp b)
  from select_tree_well_formed [OF having(2)]
  have "well_formed (Node ''Having'' [Node ''Group'' [b] gp] hp)
        \<and> nproj (Node ''Having'' [Node ''Group'' [b] gp] hp) = 0"
    by (simp add: arity_simps)
  with top_wrap_well_formed [of "Node ''Having'' [Node ''Group'' [b] gp] hp" ob pp] having(1)
  show ?thesis by simp
next
  case (group ob pp gp b)
  from select_tree_well_formed [OF group(2)]
  have "well_formed (Node ''Group'' [b] gp) \<and> nproj (Node ''Group'' [b] gp) = 0"
    by (simp add: arity_simps)
  with top_wrap_well_formed [of "Node ''Group'' [b] gp" ob pp] group(1)
  show ?thesis by simp
next
  case (plain ob pp b)
  from select_tree_well_formed [OF plain(2)] top_wrap_well_formed [of b ob pp] plain(1)
  show ?thesis by simp
qed

definition example_query :: node where
  "example_query =
     project [''a.x'']
       (Node ''Group''
         [select ''a.id = b.aid'' []
           (select ''b.y < 100'' [''b.y'']
             (select ''a.x > 5'' [''a.x''] (join ''Cross'' None scan_a scan_b)))]
         (no_props\<lparr>group_by := Some [''a.x''], aggs := Some [(''SUM(b.y)'', ''SUM(b.y)'')]\<rparr>))"


lemma example_query_canonical: "canonical example_query"
  unfolding example_query_def by code_simp












section \<open>The grammar after each pass\<close>

lemma projection_pushdown_helper_project:
  "projection_pushdown_helper (Node ''Project'' [c] p) nd =
     (case projection_pushdown_helper c
             (if ''*'' \<in> set (get_list (attrs p)) \<or> get_list (attrs p) = [] then nd
              else set (get_list (attrs p))) of
        Inl e \<Rightarrow> Inl e
      | Inr child \<Rightarrow> Inr (Node ''Project'' [child] p))"
  by simp

lemma projection_pushdown_helper_order:
  "projection_pushdown_helper (Node ''Order'' [c] p) nd =
     (case projection_pushdown_helper c (nd \<union> set (get_list (order_by p))) of
        Inl e \<Rightarrow> Inl e
      | Inr child \<Rightarrow> Inr (Node ''Order'' [child] p))"
  by simp

lemma projection_pushdown_top:
  assumes wf: "well_formed body" and np: "nproj body = 0"
  shows "\<exists>body'. projection_pushdown (top_wrap ob pp body) = Inr (top_wrap ob pp body')
           \<and> well_formed body' \<and> all_projects_over_scans body'"
proof -
  have sub: "\<exists>b'. projection_pushdown_helper body nd = Inr b' \<and> well_formed b'
               \<and> all_projects_over_scans b'" for nd
    using projection_pushdown_helper_pushed [OF wf] np
    by (auto simp: pushed_def kept_shape_def)
  have pr: "\<exists>b'. projection_pushdown_helper (Node ''Project'' [body] pp) nd
               = Inr (Node ''Project'' [b'] pp)
             \<and> well_formed b' \<and> all_projects_over_scans b'" for nd
  proof -
    from sub obtain b' where "projection_pushdown_helper body
        (if ''*'' \<in> set (get_list (attrs pp)) \<or> get_list (attrs pp) = [] then nd
         else set (get_list (attrs pp))) = Inr b'"
      "well_formed b'" "all_projects_over_scans b'" by blast
    then show ?thesis
      by (simp only: projection_pushdown_helper_project sum.case) blast
  qed
  show ?thesis
  proof (cases ob)
    case None
    have "projection_pushdown (Node ''Project'' [body] pp)
        = projection_pushdown_helper (Node ''Project'' [body] pp) (set (get_list (attrs pp)))"
      by (simp add: projection_pushdown_def del: projection_pushdown_helper.simps)
    with pr [of "set (get_list (attrs pp))"] None show ?thesis
      by (simp add: top_wrap_def del: projection_pushdown_helper.simps)
  next
    case (Some q)
    from pr [of "set (get_list (order_by q)) \<union> set (get_list (order_by q))"] obtain b'
      where b': "projection_pushdown_helper (Node ''Project'' [body] pp)
                   (set (get_list (order_by q)) \<union> set (get_list (order_by q)))
                 = Inr (Node ''Project'' [b'] pp)"
        and w: "well_formed b'" "all_projects_over_scans b'" by blast
    have "projection_pushdown (Node ''Order'' [Node ''Project'' [body] pp] q)
        = projection_pushdown_helper (Node ''Order'' [Node ''Project'' [body] pp] q)
            (set (get_list (order_by q)))"
      by (simp add: projection_pushdown_def del: projection_pushdown_helper.simps)
    also have "\<dots> = Inr (Node ''Order'' [Node ''Project'' [b'] pp] q)"
      by (simp only: projection_pushdown_helper_order b' sum.case)
    finally show ?thesis using Some w
      by (auto simp: top_wrap_def simp del: projection_pushdown_helper.simps)
  qed
qed

text \<open>
  The invariants of the canonical grammar that a pass is to keep: the arities, and one
  Project, on top.
\<close>

definition grammar :: "node \<Rightarrow> bool" where
  "grammar t = (arities_ok t \<and> project_on_top t \<and> nproj t = 1)"

lemma kept_grammar:
  assumes "well_formed t" "project_on_top t" "nproj t = 1" and "kept t t'"
  shows "grammar t'"
  using assms by (simp add: grammar_def kept_def kept_shape_def well_formed_arities_ok)

text \<open>
  C4 (as amended): a canonical tree satisfies these invariants, and so does what each
  pass other than projection_pushdown returns for it. projection_pushdown keeps the
  arities and the Project on top with its own properties, and every Project it adds
  has a Scan as its only child. The seven passes in their order return a tree with the
  arities kept and the Project on top; the driver returns this tree under every recursion
  limit from some number on, and under a smaller limit it raises RecursionError.
\<close>

theorem passes_keep_grammar:
  assumes "canonical t"
  shows "grammar t
       \<and> (\<exists>t'. breakup_conjuncts t = Inr t' \<and> grammar t')
       \<and> (\<exists>t'. selection_pushdown t = Inr t' \<and> grammar t')
       \<and> (\<exists>t'. joinize t = Inr t' \<and> grammar t')
       \<and> (\<exists>t'. reorder_joins t = Inr t' \<and> grammar t')
       \<and> (\<exists>t'. having_to_where t = Inr t' \<and> grammar t')
       \<and> (\<exists>t'. dedup_selections t = Inr t' \<and> grammar t')
       \<and> (\<exists>t'. projection_pushdown t = Inr t' \<and> arities_ok t' \<and> project_on_top t'
             \<and> (\<exists>ob pp body body'. t = top_wrap ob pp body \<and> t' = top_wrap ob pp body'
                   \<and> all_projects_over_scans body'))
       \<and> (\<exists>t'. passes_in_order t = Inr t' \<and> arities_ok t' \<and> project_on_top t'
             \<and> (\<forall>limit. optimize_pipeline limit t = Inl RecursionError
                   \<or> optimize_pipeline limit t = Inr t')
             \<and> (\<exists>l0. \<forall>limit\<ge>l0. optimize_pipeline limit t = Inr t'))"
proof -
  from canonical_well_formed [OF assms]
  have wf: "well_formed t" and top: "project_on_top t" and one: "nproj t = 1" by simp_all
  note g = kept_grammar [OF wf top one]
  have "grammar t" using wf top one by (simp add: grammar_def well_formed_arities_ok)
  moreover from breakup_conjuncts_kept [OF wf] g
  have "\<exists>t'. breakup_conjuncts t = Inr t' \<and> grammar t'" by blast
  moreover from selection_pushdown_kept [OF wf] g
  have "\<exists>t'. selection_pushdown t = Inr t' \<and> grammar t'" by blast
  moreover from joinize_kept [OF wf] g
  have "\<exists>t'. joinize t = Inr t' \<and> grammar t'" by blast
  moreover from reorder_joins_kept [OF wf] g
  have "\<exists>t'. reorder_joins t = Inr t' \<and> grammar t'" by blast
  moreover from having_to_where_kept [OF wf] g
  have "\<exists>t'. having_to_where t = Inr t' \<and> grammar t'" by blast
  moreover from dedup_selections_kept [OF wf] g
  have "\<exists>t'. dedup_selections t = Inr t' \<and> grammar t'" by blast
  moreover have "\<exists>t'. projection_pushdown t = Inr t' \<and> arities_ok t' \<and> project_on_top t'
             \<and> (\<exists>ob pp body body'. t = top_wrap ob pp body \<and> t' = top_wrap ob pp body'
                   \<and> all_projects_over_scans body')"
  proof -
    from assms obtain ob pp body where t: "t = top_wrap ob pp body"
      and wb: "well_formed body" and nb: "nproj body = 0"
    proof (cases rule: canonical_cases)
      case (having ob pp hp gp b)
      from select_tree_well_formed [OF having(2)]
      have "well_formed (Node ''Having'' [Node ''Group'' [b] gp] hp)
            \<and> nproj (Node ''Having'' [Node ''Group'' [b] gp] hp) = 0"
        by (simp add: arity_simps)
      with having(1) that show ?thesis by blast
    next
      case (group ob pp gp b)
      from select_tree_well_formed [OF group(2)]
      have "well_formed (Node ''Group'' [b] gp) \<and> nproj (Node ''Group'' [b] gp) = 0"
        by (simp add: arity_simps)
      with group(1) that show ?thesis by blast
    next
      case (plain ob pp b)
      from select_tree_well_formed [OF plain(2)] plain(1) that show ?thesis by blast
    qed
    from projection_pushdown_top [OF wb nb, of ob pp] obtain body'
      where r: "projection_pushdown (top_wrap ob pp body) = Inr (top_wrap ob pp body')"
        and wb': "well_formed body'" and sp: "all_projects_over_scans body'" by blast
    from top_wrap_well_formed [OF wb', of ob pp]
    have "arities_ok (top_wrap ob pp body') \<and> project_on_top (top_wrap ob pp body')"
      by (simp add: well_formed_arities_ok)
    with r sp t show ?thesis by blast
  qed
  moreover have "\<exists>t'. passes_in_order t = Inr t' \<and> arities_ok t' \<and> project_on_top t'
             \<and> (\<forall>limit. optimize_pipeline limit t = Inl RecursionError
                   \<or> optimize_pipeline limit t = Inr t')
             \<and> (\<exists>l0. \<forall>limit\<ge>l0. optimize_pipeline limit t = Inr t')"
  proof -
    from passes_in_order_kept_shape [OF wf] top obtain t'
      where r: "passes_in_order t = Inr t'" and s: "arities_ok t'" "project_on_top t'"
      by (auto simp: kept_shape_def well_formed_arities_ok)
    from optimize_pipeline_approx [of t]
    have "\<forall>limit. optimize_pipeline limit t = Inl RecursionError
            \<or> optimize_pipeline limit t = Inr t'"
      and "\<exists>l0. \<forall>limit\<ge>l0. optimize_pipeline limit t = Inr t'"
      unfolding approx_def r by blast+
    with r s show ?thesis by blast
  qed
  ultimately show ?thesis by blast
qed


theorem passes_keep_grammar_witness:
  "canonical example_query \<and> grammar example_query
   \<and> (\<exists>t'. selection_pushdown example_query = Inr t' \<and> grammar t')
   \<and> (\<exists>t'. dedup_selections example_query = Inr t' \<and> grammar t')
   \<and> (\<exists>t'. projection_pushdown example_query = Inr t' \<and> arities_ok t' \<and> project_on_top t')
   \<and> grammar (project [''a.x''] (select ''a.x > 5'' [''a.x''] scan_a))"
proof -
  have g: "grammar (project [''a.x''] (select ''a.x > 5'' [''a.x''] scan_a))"
    by code_simp
  from passes_keep_grammar [OF example_query_canonical] example_query_canonical g
  show ?thesis by blast
qed

text \<open>
  C4 as stated fails: the tree below is canonical, and projection_pushdown returns it
  with a second Project, above the Scan.
\<close>

theorem projection_pushdown_adds_project:
  "canonical (project [''a.x''] scan_a)
   \<and> projection_pushdown (project [''a.x''] scan_a)
       = Inr (project [''a.x''] (project [''a.x''] scan_a))
   \<and> nproj (project [''a.x''] (project [''a.x''] scan_a)) = 2
   \<and> \<not> grammar (project [''a.x''] (project [''a.x''] scan_a))"
  by code_simp


end
